theory Spec2Isabelle
  imports Main "HOL-Library.Sublist" "HOL-Library.AList"
begin

section \<open>The contract compiler of apps/contracts (compiler.ts)\<close>

text \<open>
  The class \<open>ContractCompiler\<close> resolves the imports of a Solidity template, hands the
  resulting multi-file unit to \<open>solc\<close> and caches the artifact by contract name.
  Source text and paths are \<open>string\<close>s of 8-bit code units. The file system is a partial
  map from absolute paths to file contents, the external compiler is a function from
  its input to its output, and \<open>console.warn\<close>, \<open>fs.readFile\<close> and \<open>solc.compile\<close>
  leave an event in a trace so that their number and order can be stated.

  The two objects that serve as dictionaries, \<open>sources\<close> and \<open>cache\<close>, are
  ordinary objects and are modelled as such: by the list of their own properties in the
  order in which \<open>Object.keys\<close> and \<open>JSON.stringify\<close> list them, with the
  assignment to \<open>__proto__\<close>, which adds no property, and with the members that
  every object inherits and that a lookup finds. Calls of \<open>getContract\<close> are taken
  one after the other; the interleaving of two calls that are both waiting is not
  modelled.
\<close>

subsection \<open>String helpers of the JavaScript runtime\<close>

text \<open>\<open>s.startsWith(p)\<close> is \<^const>\<open>prefix\<close> \<open>p s\<close>. \<open>s.includes(sub)\<close>:\<close>

fun str_includes :: "string \<Rightarrow> string \<Rightarrow> bool" where
  "str_includes [] sub = (sub = [])"
| "str_includes (c # cs) sub = (prefix sub (c # cs) \<or> str_includes cs sub)"

text \<open>The text before, and after, the leftmost occurrence of a non-empty separator.\<close>

fun before_first :: "string \<Rightarrow> string \<Rightarrow> string" where
  "before_first sep [] = []"
| "before_first sep (c # cs) = (if prefix sep (c # cs) then [] else c # before_first sep cs)"

fun after_first :: "string \<Rightarrow> string \<Rightarrow> string" where
  "after_first sep [] = []"
| "after_first sep (c # cs) =
     (if prefix sep (c # cs) then drop (length sep) (c # cs) else after_first sep cs)"

text \<open>
  \<open>s.replace(pat, rep)\<close> with a string pattern replaces the leftmost occurrence only;
  the replacement used by the compiler is the empty string, which has no \<open>$\<close> patterns.
\<close>

definition str_replace :: "string \<Rightarrow> string \<Rightarrow> string \<Rightarrow> string" where
  "str_replace pat rep s =
     (if str_includes s pat then before_first pat s @ rep @ after_first pat s else s)"

text \<open>
  \<open>s.split(sep)[1]\<close> for a separator that occurs in \<open>s\<close>: the text between the first
  occurrence and the next one after it (or the end).
\<close>

definition split_nth1 :: "string \<Rightarrow> string \<Rightarrow> string" where
  "split_nth1 sep s = before_first sep (after_first sep s)"

text \<open>\<open>s.replace(/\\/g, '/')\<close>: every backslash becomes a forward slash.\<close>

definition backslash_to_slash :: "string \<Rightarrow> string" where
  "backslash_to_slash s = map (\<lambda>c. if c = CHR 0x5C then CHR ''/'' else c) s"

subsection \<open>Objects used as dictionaries\<close>

text \<open>
  An object created by \<open>{}\<close> is the list of its own properties in the order in
  which \<open>Object.keys\<close> and \<open>JSON.stringify\<close> enumerate them: first the names that
  are array indices, in ascending numeric order, then the other names in the order of
  their creation. An array index is the canonical decimal numeral (no sign, no leading
  zero) of an integer below \<open>2^32 - 1\<close>.
\<close>

definition is_digit :: "char \<Rightarrow> bool" where
  "is_digit ch \<longleftrightarrow> ch \<in> set ''0123456789''"

definition digits_value :: "string \<Rightarrow> int" where
  "digits_value s = foldl (\<lambda>n ch. 10 * n + (of_char ch - 48)) 0 s"

definition array_index :: "string \<Rightarrow> int option" where
  "array_index k =
     (if k \<noteq> [] \<and> list_all is_digit k \<and> (k = ''0'' \<or> hd k \<noteq> CHR ''0'')
         \<and> digits_value k < 4294967295
      then Some (digits_value k) else None)"

text \<open>A new array index goes in front of the first name that is no smaller index.\<close>

fun insert_index :: "int \<Rightarrow> string \<Rightarrow> 'v \<Rightarrow> (string \<times> 'v) list \<Rightarrow> (string \<times> 'v) list" where
  "insert_index n k v [] = [(k, v)]"
| "insert_index n k v ((k', v') # rest) =
     (case array_index k' of
        Some m \<Rightarrow> if m < n then (k', v') # insert_index n k v rest
                  else (k, v) # (k', v') # rest
      | None \<Rightarrow> (k, v) # (k', v') # rest)"

text \<open>
  \<open>obj[k] = v\<close> where \<open>v\<close> is an object. The name \<open>__proto__\<close> is an accessor that
  every object inherits: the assignment makes \<open>v\<close> the prototype of \<open>obj\<close> and adds
  no property. No other inherited member stands in the way of an assignment. A name
  that is present keeps its place and gets the new value (\<^const>\<open>AList.update\<close>, which
  also puts a name that is not present behind the others); a new array index is put in
  its numeric place.
\<close>

definition js_set :: "string \<Rightarrow> 'v \<Rightarrow> (string \<times> 'v) list \<Rightarrow> (string \<times> 'v) list" where
  "js_set k v obj =
     (if k = ''__proto__'' then obj
      else (case array_index k of
              Some n \<Rightarrow>
                if k \<in> set (map fst obj) then AList.update k v obj
                else insert_index n k v obj
            | None \<Rightarrow> AList.update k v obj))"

text \<open>
  \<open>obj[k]\<close> for an object whose prototype is \<open>Object.prototype\<close>: the own property
  of that name, else the member of that name that the object inherits, else
  \<open>undefined\<close> (\<open>None\<close>). The inherited members are functions, and \<open>__proto__\<close>
  reads as the prototype itself; all of them are truthy, as is every stored object.
\<close>

definition object_prototype_members :: "string list" where
  "object_prototype_members =
     [''constructor'', ''__defineGetter__'', ''__defineSetter__'', ''hasOwnProperty'',
      ''__lookupGetter__'', ''__lookupSetter__'', ''isPrototypeOf'', ''propertyIsEnumerable'',
      ''toString'', ''valueOf'', ''__proto__'', ''toLocaleString'']"

datatype 'v js_value = Value 'v | Inherited string

definition js_get :: "(string \<times> 'v) list \<Rightarrow> string \<Rightarrow> 'v js_value option" where
  "js_get obj k =
     (case map_of obj k of
        Some v \<Rightarrow> Some (Value v)
      | None \<Rightarrow> if k \<in> set object_prototype_members then Some (Inherited k) else None)"

text \<open>The order of enumeration: array indices first and ascending, then the other names.\<close>

fun js_ordered :: "(string \<times> 'v) list \<Rightarrow> bool" where
  "js_ordered [] = True"
| "js_ordered [kv] = True"
| "js_ordered ((k, v) # (k', v') # rest) =
     ((case array_index k of
         Some m \<Rightarrow> (case array_index k' of Some n \<Rightarrow> m \<le> n | None \<Rightarrow> True)
       | None \<Rightarrow> array_index k' = None)
      \<and> js_ordered ((k', v') # rest))"

subsection \<open>Node's \<open>path\<close> module (POSIX)\<close>

fun split_on :: "char \<Rightarrow> string \<Rightarrow> string list" where
  "split_on d [] = [[]]"
| "split_on d (c # cs) =
     (if c = d then [] # split_on d cs
      else (case split_on d cs of [] \<Rightarrow> [[c]] | s # ss \<Rightarrow> (c # s) # ss))"

fun join_path :: "string list \<Rightarrow> string" where
  "join_path [] = []"
| "join_path [s] = s"
| "join_path (s # t # ss) = s @ CHR ''/'' # join_path (t # ss)"

text \<open>
  \<open>normalizeString\<close>: empty and \<open>.\<close> segments are dropped, \<open>..\<close> removes the segment
  before it; with nothing to remove it is kept when \<open>allowAboveRoot\<close> and dropped
  otherwise. The accumulator holds the segments kept so far, last one first.
\<close>

fun normalizeSegs :: "bool \<Rightarrow> string list \<Rightarrow> string list \<Rightarrow> string list" where
  "normalizeSegs allowAboveRoot acc [] = rev acc"
| "normalizeSegs allowAboveRoot acc (s # ss) =
     (if s = [] \<or> s = ''.'' then normalizeSegs allowAboveRoot acc ss
      else if s = ''..'' then
        (case acc of
           [] \<Rightarrow> normalizeSegs allowAboveRoot (if allowAboveRoot then [''..''] else []) ss
         | t # ts \<Rightarrow>
             if t = ''..''
             then normalizeSegs allowAboveRoot (if allowAboveRoot then ''..'' # acc else acc) ss
             else normalizeSegs allowAboveRoot ts ss)
      else normalizeSegs allowAboveRoot (s # acc) ss)"

definition normalizeString :: "string \<Rightarrow> bool \<Rightarrow> string" where
  "normalizeString p allowAboveRoot =
     join_path (normalizeSegs allowAboveRoot [] (split_on CHR ''/'' p))"

text \<open>
  \<open>path.resolve(...args)\<close> walks its arguments from the right, then the working
  directory, until one is absolute; empty arguments are skipped.
\<close>

fun resolve_collect :: "string list \<Rightarrow> string \<Rightarrow> string \<times> bool" where
  "resolve_collect [] acc = (acc, False)"
| "resolve_collect (p # ps) acc =
     (if p = [] then resolve_collect ps acc
      else if hd p = CHR ''/'' then (p @ CHR ''/'' # acc, True)
      else resolve_collect ps (p @ CHR ''/'' # acc))"

definition path_resolve :: "string \<Rightarrow> string list \<Rightarrow> string" where
  "path_resolve cwd args =
     (let (resolvedPath, resolvedAbsolute) = resolve_collect (rev args @ [cwd]) [];
          n = normalizeString resolvedPath (\<not> resolvedAbsolute)
      in if resolvedAbsolute then CHR ''/'' # n
         else if n \<noteq> [] then n else ''.'')"

text \<open>
  \<open>path.dirname(p)\<close>: trailing slashes are skipped, the result ends before the last
  slash that is left; the slash at index 0 is never that one.
\<close>

definition path_dirname :: "string \<Rightarrow> string" where
  "path_dirname p =
     (case p of
        [] \<Rightarrow> ''.''
      | c0 # rest \<Rightarrow>
          (case dropWhile (\<lambda>c. c \<noteq> CHR ''/'') (dropWhile (\<lambda>c. c = CHR ''/'') (rev rest)) of
             [] \<Rightarrow> if c0 = CHR ''/'' then ''/'' else ''.''
           | _ # r \<Rightarrow> if c0 = CHR ''/'' \<and> r = [] then ''//'' else c0 # rev r))"

text \<open>The last segment of a path, and the slashes that follow it.\<close>

definition last_segment :: "string \<Rightarrow> string" where
  "last_segment p =
     rev (takeWhile (\<lambda>c. c \<noteq> CHR ''/'') (dropWhile (\<lambda>c. c = CHR ''/'') (rev p)))"

definition trailing_slashes :: "string \<Rightarrow> string" where
  "trailing_slashes p = takeWhile (\<lambda>c. c = CHR ''/'') (rev p)"

text \<open>
  \<open>path.basename(p, ext)\<close>. Without a usable \<open>ext\<close> (empty, or longer than \<open>p\<close>) the
  result is the last segment. Otherwise Node compares the last segment with \<open>ext\<close>
  from the right: \<open>ext\<close> is cut off when the segment ends with it and is longer; a
  segment equal to \<open>ext\<close> is returned whole; when the segment is a proper end of
  \<open>ext\<close> the slice runs to the end of \<open>p\<close> and so keeps the trailing slashes; and
  \<open>p = ext\<close> gives the empty string.
\<close>

definition path_basename :: "string \<Rightarrow> string \<Rightarrow> string" where
  "path_basename p ext =
     (let seg = last_segment p in
      if ext \<noteq> [] \<and> length ext \<le> length p then
        (if ext = p then []
         else if suffix ext seg \<and> seg \<noteq> ext then take (length seg - length ext) seg
         else if suffix seg ext \<and> seg \<noteq> ext then seg @ trailing_slashes p
         else seg)
      else seg)"

text \<open>
  \<open>path.relative(from, to)\<close>: both are resolved, the common leading segments are
  removed, and each segment left of \<open>from\<close> becomes \<open>..\<close>.
\<close>

fun strip_common :: "string list \<Rightarrow> string list \<Rightarrow> string list \<times> string list" where
  "strip_common (a # as) (b # bs) = (if a = b then strip_common as bs else (a # as, b # bs))"
| "strip_common as bs = (as, bs)"

definition path_segments :: "string \<Rightarrow> string list" where
  "path_segments p = filter (\<lambda>s. s \<noteq> []) (split_on CHR ''/'' p)"

definition path_relative :: "string \<Rightarrow> string \<Rightarrow> string \<Rightarrow> string" where
  "path_relative cwd from to =
     (if from = to then []
      else
        (let f = path_resolve cwd [from]; t = path_resolve cwd [to] in
         if f = t then []
         else
           (let (fs, ts) = strip_common (path_segments f) (path_segments t)
            in join_path (map (\<lambda>_. ''..'') fs @ ts))))"

text \<open>
  \<open>path.normalize\<close> and \<open>path.join\<close>, which the compiler does not call: \<open>join\<close>
  concatenates its non-empty arguments with a slash between them and normalises the
  result, keeping a trailing slash. An absolute argument does not replace the ones
  before it, as it does in \<open>path.resolve\<close>.
\<close>

definition path_normalize :: "string \<Rightarrow> string" where
  "path_normalize p =
     (if p = [] then ''.''
      else
        (let isAbsolute = (hd p = CHR ''/'');
             trailingSeparator = (last p = CHR ''/'');
             n = normalizeString p (\<not> isAbsolute)
         in if n = [] then (if isAbsolute then ''/'' else if trailingSeparator then ''./'' else ''.'')
            else (if isAbsolute then ''/'' else []) @ n @ (if trailingSeparator then ''/'' else [])))"

definition path_join :: "string list \<Rightarrow> string" where
  "path_join args =
     (case filter (\<lambda>a. a \<noteq> []) args of
        [] \<Rightarrow> ''.''
      | a # as \<Rightarrow> path_normalize (foldl (\<lambda>joined arg. joined @ CHR ''/'' # arg) a as))"

text \<open>
  Paths without surprises: a plain segment is a name other than \<open>.\<close> and \<open>..\<close>, a
  plain path is a sequence of plain segments with one slash between them, and a plain
  absolute path is a slash followed by a plain path.
\<close>

definition plain_segment :: "string \<Rightarrow> bool" where
  "plain_segment s \<longleftrightarrow> s \<noteq> [] \<and> s \<noteq> ''.'' \<and> s \<noteq> ''..'' \<and> CHR ''/'' \<notin> set s"

definition plain_path :: "string \<Rightarrow> bool" where
  "plain_path p \<longleftrightarrow> list_all plain_segment (split_on CHR ''/'' p)"

definition plain_absolute :: "string \<Rightarrow> bool" where
  "plain_absolute p \<longleftrightarrow> (case p of [] \<Rightarrow> False | c # r \<Rightarrow> c = CHR ''/'' \<and> plain_path r)"

subsection \<open>The import pattern\<close>

text \<open>
  \<open>importRegex\<close> is
  \<^verbatim>\<open>/import\s+.*?from\s+["']([^"']+)["'];|import\s+["']([^"']+)["'];/g\<close>.
  \<open>\s\<close> is JavaScript white space and \<open>.\<close> excludes line terminators, both taken
  below code unit 256.
\<close>

definition is_space :: "char \<Rightarrow> bool" where
  "is_space c \<longleftrightarrow>
     c = CHR '' '' \<or> c = CHR 0x09 \<or> c = CHR 0x0A \<or> c = CHR 0x0B \<or> c = CHR 0x0C
     \<or> c = CHR 0x0D \<or> c = CHR 0xA0"

definition is_line_terminator :: "char \<Rightarrow> bool" where
  "is_line_terminator c \<longleftrightarrow> c = CHR 0x0A \<or> c = CHR 0x0D"

definition is_quote :: "char \<Rightarrow> bool" where
  "is_quote c \<longleftrightarrow> c = CHR 0x22 \<or> c = CHR 0x27"

text \<open>
  \<open>\s+\<close> is greedy, and giving characters back never helps. Before a quote, and
  before \<open>from\<close> with nothing skipped, the next character would be white space. Before
  the lazy \<^verbatim>\<open>.*?\<close> a shorter run only adds start positions for \<open>from\<close> inside the
  run, where \<open>from\<close> cannot start, and the positions behind the run are the ones the
  longest run reaches. So the matcher takes the whole run.
\<close>

definition match_spaces :: "string \<Rightarrow> string option" where
  "match_spaces s =
     (case s of [] \<Rightarrow> None
      | c # cs \<Rightarrow> if is_space c then Some (dropWhile is_space cs) else None)"

text \<open>
  \<^verbatim>\<open>["']([^"']+)["'];\<close> at the start of \<open>s\<close>: the capture and the input left
  after the semicolon. The capture is greedy and stops at the next quote.
\<close>

definition match_quoted :: "string \<Rightarrow> (string \<times> string) option" where
  "match_quoted s =
     (case s of [] \<Rightarrow> None
      | q # t \<Rightarrow>
          if is_quote q then
            (let body = takeWhile (\<lambda>c. \<not> is_quote c) t;
                 r = dropWhile (\<lambda>c. \<not> is_quote c) t
             in if body = [] then None
                else (case r of
                        q2 # sc # rest \<Rightarrow> if sc = CHR '';'' then Some (body, rest) else None
                      | _ \<Rightarrow> None))
          else None)"

text \<open>\<^verbatim>\<open>from\s+["']([^"']+)["'];\<close> at the start of \<open>s\<close>.\<close>

definition match_from :: "string \<Rightarrow> (string \<times> string) option" where
  "match_from s =
     (if prefix ''from'' s
      then (case match_spaces (drop 4 s) of None \<Rightarrow> None | Some r \<Rightarrow> match_quoted r)
      else None)"

text \<open>
  The lazy \<^verbatim>\<open>.*?\<close> followed by the \<open>from\<close> clause: the clause is tried at the
  current position first, and one more character is skipped only when it fails and
  the character is not a line terminator.
\<close>

fun match_lazy_from :: "string \<Rightarrow> (string \<times> string) option" where
  "match_lazy_from [] = None"
| "match_lazy_from (c # cs) =
     (case match_from (c # cs) of
        Some r \<Rightarrow> Some r
      | None \<Rightarrow> if is_line_terminator c then None else match_lazy_from cs)"

text \<open>
  One attempt of the whole pattern at the start of \<open>s\<close>: the first alternative, then
  the second. The result is \<open>match[1] || match[2]\<close> with the input after the match.
\<close>

definition match_import :: "string \<Rightarrow> (string \<times> string) option" where
  "match_import s =
     (if prefix ''import'' s then
        (case match_spaces (drop 6 s) of
           None \<Rightarrow> None
         | Some r \<Rightarrow>
             (case match_lazy_from r of Some m \<Rightarrow> Some m | None \<Rightarrow> match_quoted r))
      else None)"

lemma dropWhile_length_le: "length (dropWhile P xs) \<le> length xs"
  by (induction xs) auto

lemma match_spaces_shorter: "match_spaces s = Some r \<Longrightarrow> length r < length s"
  using dropWhile_length_le [of is_space "tl s"]
  by (auto simp: match_spaces_def split: list.splits if_splits)

lemma match_quoted_shorter: "match_quoted s = Some (cap, r) \<Longrightarrow> length r < length s"
proof -
  assume a: "match_quoted s = Some (cap, r)"
  then obtain q t where s: "s = q # t" by (cases s) (auto simp: match_quoted_def)
  from a s obtain q2 sc where "dropWhile (\<lambda>c. \<not> is_quote c) t = q2 # sc # r"
    by (auto simp: match_quoted_def Let_def split: if_splits list.splits)
  then have "length r < length (dropWhile (\<lambda>c. \<not> is_quote c) t)" by simp
  also have "\<dots> \<le> length t" by (rule dropWhile_length_le)
  finally show ?thesis using s by simp
qed

lemma match_from_shorter: "match_from s = Some (cap, r) \<Longrightarrow> length r < length s"
proof -
  assume a: "match_from s = Some (cap, r)"
  then obtain r0 where r0: "match_spaces (drop 4 s) = Some r0" and q: "match_quoted r0 = Some (cap, r)"
    by (auto simp: match_from_def split: if_splits option.splits)
  have "length r < length r0" using q by (rule match_quoted_shorter)
  also have "\<dots> < length (drop 4 s)" using r0 by (rule match_spaces_shorter)
  also have "\<dots> \<le> length s" by simp
  finally show ?thesis .
qed

lemma match_lazy_from_shorter: "match_lazy_from s = Some (cap, r) \<Longrightarrow> length r < length s"
proof (induction s)
  case Nil
  then show ?case by simp
next
  case (Cons c cs)
  show ?case
  proof (cases "match_from (c # cs)")
    case None
    with Cons.prems have "match_lazy_from cs = Some (cap, r)"
      by (auto split: if_splits)
    then have "length r < length cs" by (rule Cons.IH)
    then show ?thesis by simp
  next
    case (Some m)
    with Cons.prems have "match_from (c # cs) = Some (cap, r)" by simp
    then show ?thesis by (rule match_from_shorter)
  qed
qed

lemma match_import_shorter: "match_import s = Some (cap, r) \<Longrightarrow> length r < length s"
proof -
  assume a: "match_import s = Some (cap, r)"
  then obtain r0 where r0: "match_spaces (drop 6 s) = Some r0"
    and m: "match_lazy_from r0 = Some (cap, r) \<or> match_quoted r0 = Some (cap, r)"
    by (auto simp: match_import_def split: if_splits option.splits)
  from m have "length r < length r0"
    using match_lazy_from_shorter match_quoted_shorter by blast
  also have "\<dots> < length (drop 6 s)" using r0 by (rule match_spaces_shorter)
  also have "\<dots> \<le> length s" by simp
  finally show ?thesis .
qed

text \<open>
  The loop \<open>while ((match = importRegex.exec(source)) !== null)\<close>: the pattern is tried
  at each position from \<open>lastIndex\<close> on, and the search goes on behind a match. The
  result lists the specifiers in the order in which the loop sees them.
\<close>

function importRegex_exec_all :: "string \<Rightarrow> string list" where
  "importRegex_exec_all [] = []"
| "importRegex_exec_all (c # cs) =
     (case match_import (c # cs) of
        Some (cap, rest) \<Rightarrow> cap # importRegex_exec_all rest
      | None \<Rightarrow> importRegex_exec_all cs)"
  by pat_completeness auto
termination
proof (relation "measure length")
  show "wf (measure length)" by simp
next
  fix c cs x2 x y
  assume "match_import (c # cs) = Some x2" and "(x, y) = x2"
  then have "match_import (c # cs) = Some (x, y)" by simp
  then have "length y < length (c # cs)" by (rule match_import_shorter)
  then show "(y, c # cs) \<in> measure length" by simp
next
  fix c cs
  show "(cs, c # cs) \<in> measure length" by simp
qed

subsection \<open>The compiler object\<close>

text \<open>
  The constructor fixes two directories from the directory of the module. The
  working directory of the process is kept beside them because \<open>path.resolve\<close> falls
  back on it.
\<close>

record config =
  contractsDir :: string
  ozContractsDir :: string
  cwd :: string

definition ContractCompiler_new :: "string \<Rightarrow> string \<Rightarrow> config" where
  "ContractCompiler_new wd dirname =
     (let srcDir = (if str_includes dirname ''dist''
                    then path_resolve wd [dirname, ''../src'']
                    else dirname);
          projectRoot = path_resolve wd [dirname, ''../../../'']
      in \<lparr> contractsDir = path_resolve wd [srcDir, ''contracts''],
           ozContractsDir = path_resolve wd [projectRoot, ''node_modules/@openzeppelin/contracts/''],
           cwd = wd \<rparr>)"

record CompiledContract =
  bytecode :: string
  abi :: string
  metadata :: string

record diagnostic =
  severity :: string
  message :: string

text \<open>The JSON document given to \<open>solc.compile\<close> and the parsed document it returns.\<close>

record compiler_input =
  language :: string
  input_sources :: "(string \<times> string) list"
  version :: string
  outputSelection :: "string list"
  optimizer_enabled :: bool
  optimizer_runs :: nat

record contract_output =
  out_abi :: string
  evm_bytecode_object :: string
  out_metadata :: string

record compiler_output =
  errors :: "diagnostic list option"
  contracts :: "(string \<times> (string \<times> contract_output) list) list"

datatype error =
    ImportNotFound string "string option"
  | FileReadError string
  | CompilationErrors "diagnostic list"
  | TypeError

datatype event =
    ReadFile string
  | Warn string string error
  | SolcCompile compiler_input

type_synonym filesystem = "string \<rightharpoonup> string"

subsection \<open>\<open>findImports\<close>\<close>

definition oz_prefix :: string where
  "oz_prefix = ''@openzeppelin/contracts/''"

definition is_relative_import :: "string \<Rightarrow> bool" where
  "is_relative_import importPath \<longleftrightarrow> prefix ''./'' importPath \<or> prefix ''../'' importPath"

text \<open>
  The path that \<open>findImports\<close> reads. \<open>basePath\<close> is optional, and \<open>if (basePath)\<close>
  also fails for the empty string.
\<close>

definition findImports_fullPath :: "config \<Rightarrow> string \<Rightarrow> string option \<Rightarrow> string" where
  "findImports_fullPath c importPath basePath =
     (if prefix oz_prefix importPath then
        path_resolve (cwd c) [ozContractsDir c, str_replace oz_prefix [] importPath]
      else if is_relative_import importPath then
        (case basePath of
           Some b \<Rightarrow>
             if b \<noteq> [] then path_resolve (cwd c) [path_dirname b, importPath]
             else path_resolve (cwd c) [contractsDir c, importPath]
         | None \<Rightarrow> path_resolve (cwd c) [contractsDir c, importPath])
      else path_resolve (cwd c) [contractsDir c, importPath])"

definition findImports ::
  "config \<Rightarrow> filesystem \<Rightarrow> string \<Rightarrow> string option \<Rightarrow> error + string" where
  "findImports c fs importPath basePath =
     (case fs (findImports_fullPath c importPath basePath) of
        Some contents \<Rightarrow> Inr contents
      | None \<Rightarrow> Inl (ImportNotFound importPath basePath))"

subsection \<open>\<open>resolveAllImports\<close>\<close>

text \<open>
  \<open>sources\<close> is the object under construction, its own properties in the order
  of enumeration; \<open>processedPaths\<close> is the \<open>Set\<close>, in insertion order. Nothing
  reads a property of \<open>sources\<close> by name, so its prototype, which an assignment to
  \<open>__proto__\<close> replaces, is of no consequence and is not kept.
\<close>

record resolver_state =
  sources :: "(string \<times> string) list"
  processedPaths :: "string list"
  events :: "event list"

definition oz_marker :: string where
  "oz_marker = ''node_modules/@openzeppelin/contracts/''"

text \<open>The key under which \<open>processFile\<close> files an import found in \<open>filePath\<close>.\<close>

definition importSourceKey :: "config \<Rightarrow> string \<Rightarrow> string \<Rightarrow> string" where
  "importSourceKey c filePath importPath =
     (if prefix oz_prefix importPath then importPath
      else if is_relative_import importPath then
        (let resolvedPath = path_resolve (cwd c) [path_dirname filePath, importPath] in
         if str_includes resolvedPath oz_marker
         then oz_prefix @ backslash_to_slash (split_nth1 oz_marker resolvedPath)
         else backslash_to_slash (path_relative (cwd c) (contractsDir c) resolvedPath))
      else importPath)"


text \<open>The path under which the imported file is marked as processed.\<close>

definition importFilePath :: "config \<Rightarrow> string \<Rightarrow> string \<Rightarrow> string" where
  "importFilePath c filePath importPath =
     (if prefix oz_prefix importPath then
        path_resolve (cwd c) [ozContractsDir c, str_replace oz_prefix [] importPath]
      else if is_relative_import importPath then
        path_resolve (cwd c) [path_dirname filePath, importPath]
      else path_resolve (cwd c) [contractsDir c, importPath])"

text \<open>
  \<open>processFile\<close> and its \<open>while\<close> loop over the matches of the pattern. The recursion
  of \<open>processFile\<close> is bounded by fuel: \<open>None\<close> means that the fuel ran out, and no
  other failure leaves the function, since the loop body is one \<open>try\<close> block whose
  \<open>catch\<close> only warns.
\<close>

fun processFile ::
    "nat \<Rightarrow> config \<Rightarrow> filesystem \<Rightarrow> string \<Rightarrow> string \<Rightarrow> string \<Rightarrow> resolver_state
      \<Rightarrow> resolver_state option"
  and processImports ::
    "nat \<Rightarrow> config \<Rightarrow> filesystem \<Rightarrow> string list \<Rightarrow> string \<Rightarrow> resolver_state
      \<Rightarrow> resolver_state option"
where
  "processFile 0 c fs source filePath sourceKey st = None"
| "processFile (Suc n) c fs source filePath sourceKey st =
     (if filePath \<in> set (processedPaths st) then Some st
      else processImports n c fs (importRegex_exec_all source) filePath
             (st\<lparr> processedPaths := processedPaths st @ [filePath],
                  sources := js_set sourceKey source (sources st) \<rparr>))"
| "processImports n c fs [] filePath st = Some st"
| "processImports n c fs (importPath # rest) filePath st =
     (let st1 = st\<lparr> events := events st
                  @ [ReadFile (findImports_fullPath c importPath (Some filePath))] \<rparr>
      in case findImports c fs importPath (Some filePath) of
           Inl e \<Rightarrow>
             processImports n c fs rest filePath
               (st1\<lparr> events := events st1 @ [Warn importPath filePath e] \<rparr>)
         | Inr contents \<Rightarrow>
             (case processFile n c fs contents (importFilePath c filePath importPath)
                     (importSourceKey c filePath importPath) st1 of
                None \<Rightarrow> None
              | Some st2 \<Rightarrow> processImports n c fs rest filePath st2))"

definition initial_state :: resolver_state where
  "initial_state = \<lparr> sources = [], processedPaths = [], events = [] \<rparr>"

definition resolveAllImports_run ::
  "nat \<Rightarrow> config \<Rightarrow> filesystem \<Rightarrow> string \<Rightarrow> string \<Rightarrow> resolver_state option" where
  "resolveAllImports_run n c fs contractSource contractPath =
     processFile n c fs contractSource contractPath
       (path_basename contractPath ''.sol'') initial_state"

definition resolveAllImports ::
  "nat \<Rightarrow> config \<Rightarrow> filesystem \<Rightarrow> string \<Rightarrow> string \<Rightarrow> (string \<times> string) list option" where
  "resolveAllImports n c fs contractSource contractPath =
     map_option sources (resolveAllImports_run n c fs contractSource contractPath)"

subsection \<open>\<open>compileContract\<close>, \<open>getContract\<close> and the cache\<close>

text \<open>
  The cache object, its own properties in the order of enumeration, and the trace of
  the file reads, warnings and compiler invocations so far.
\<close>

record world =
  cache :: "(string \<times> CompiledContract) list"
  trace :: "event list"

definition mk_input :: "(string \<times> string) list \<Rightarrow> compiler_input" where
  "mk_input allSources =
     \<lparr> language = ''Solidity'', input_sources = allSources, version = ''0.8.24'',
       outputSelection = [''abi'', ''evm.bytecode'', ''metadata''],
       optimizer_enabled = True, optimizer_runs = 200 \<rparr>"

definition error_diagnostics :: "compiler_output \<Rightarrow> diagnostic list" where
  "error_diagnostics output =
     (case errors output of
        None \<Rightarrow> []
      | Some ds \<Rightarrow> filter (\<lambda>d. severity d = ''error'') ds)"

text \<open>
  The part of \<open>compileContract\<close> behind the error check. The parsed response is
  given by its own entries in the order of \<open>Object.keys\<close>. \<open>Object.keys\<close> of a
  missing entry and a property of a missing contract raise a \<open>TypeError\<close>; so does a
  lookup that finds an inherited member only, which has no keys.
\<close>

definition extract_contract :: "compiler_output \<Rightarrow> string \<Rightarrow> error + CompiledContract" where
  "extract_contract output contractName =
     (case map_of (contracts output) contractName of
        None \<Rightarrow> Inl TypeError
      | Some cs \<Rightarrow>
          (case cs of
             [] \<Rightarrow> Inl TypeError
           | (contractKey, contract) # _ \<Rightarrow>
               Inr \<lparr> bytecode = evm_bytecode_object contract, abi = out_abi contract,
                     metadata = out_metadata contract \<rparr>))"

text \<open>
  \<open>compileContract\<close>. The outer \<open>option\<close> is the fuel of the import resolution; the
  inner sum is the promise, rejected (\<open>Inl\<close>) or fulfilled (\<open>Inr\<close>). The test
  \<open>if (this.cache[contractName])\<close> holds for a stored artifact and for a member that
  the cache object inherits, and the call returns what the lookup found. The name
  \<open>__proto__\<close> is such a member, so the assignment at the end never has that name and
  the prototype of the cache stays \<open>Object.prototype\<close>.
\<close>

definition compileContract ::
  "nat \<Rightarrow> config \<Rightarrow> filesystem \<Rightarrow> (compiler_input \<Rightarrow> compiler_output) \<Rightarrow> string \<Rightarrow> world
    \<Rightarrow> ((error + CompiledContract js_value) \<times> world) option" where
  "compileContract n c fs solc contractPath w =
     (let contractName = path_basename contractPath ''.sol'' in
      case js_get (cache w) contractName of
        Some cached \<Rightarrow> Some (Inr cached, w)
      | None \<Rightarrow>
          (let w1 = w\<lparr> trace := trace w @ [ReadFile contractPath] \<rparr> in
           case fs contractPath of
             None \<Rightarrow> Some (Inl (FileReadError contractPath), w1)
           | Some source \<Rightarrow>
               (case resolveAllImports_run n c fs source contractPath of
                  None \<Rightarrow> None
                | Some st \<Rightarrow>
                    (let input = mk_input (sources st);
                         output = solc input;
                         w2 = w1\<lparr> trace := trace w1 @ events st @ [SolcCompile input] \<rparr>
                     in if error_diagnostics output \<noteq> []
                        then Some (Inl (CompilationErrors (error_diagnostics output)), w2)
                        else (case extract_contract output contractName of
                                Inl e \<Rightarrow> Some (Inl e, w2)
                              | Inr compiled \<Rightarrow>
                                  Some (Inr (Value compiled),
                                        w2\<lparr> cache := js_set contractName compiled
                                                        (cache w2) \<rparr>))))))"

definition getContract ::
  "nat \<Rightarrow> config \<Rightarrow> filesystem \<Rightarrow> (compiler_input \<Rightarrow> compiler_output) \<Rightarrow> string \<Rightarrow> world
    \<Rightarrow> ((error + CompiledContract js_value) \<times> world) option" where
  "getContract n c fs solc contractName w =
     compileContract n c fs solc
       (path_resolve (cwd c) [contractsDir c, contractName @ ''.sol'']) w"

definition getERC20 ::
  "nat \<Rightarrow> config \<Rightarrow> filesystem \<Rightarrow> (compiler_input \<Rightarrow> compiler_output) \<Rightarrow> world
    \<Rightarrow> ((error + CompiledContract js_value) \<times> world) option" where
  "getERC20 n c fs solc w = getContract n c fs solc ''ERC20'' w"

definition getERC721 ::
  "nat \<Rightarrow> config \<Rightarrow> filesystem \<Rightarrow> (compiler_input \<Rightarrow> compiler_output) \<Rightarrow> world
    \<Rightarrow> ((error + CompiledContract js_value) \<times> world) option" where
  "getERC721 n c fs solc w = getContract n c fs solc ''ERC721'' w"

definition getERC1155 ::
  "nat \<Rightarrow> config \<Rightarrow> filesystem \<Rightarrow> (compiler_input \<Rightarrow> compiler_output) \<Rightarrow> world
    \<Rightarrow> ((error + CompiledContract js_value) \<times> world) option" where
  "getERC1155 n c fs solc w = getContract n c fs solc ''ERC1155'' w"

text \<open>
  \<open>clearCache\<close> installs a new empty object; \<open>getCacheKeys\<close> is \<open>Object.keys\<close> of
  the cache, whose own properties are held in that order.
\<close>

definition clearCache :: "world \<Rightarrow> world" where
  "clearCache w = w\<lparr> cache := [] \<rparr>"

definition getCacheKeys :: "world \<Rightarrow> string list" where
  "getCacheKeys w = map fst (cache w)"

text \<open>
  The entry file of a contract name and the name under which \<open>compileContract\<close>
  caches its artifact: \<open>path.basename(contractPath, '.sol')\<close>.
\<close>

definition is_absolute :: "string \<Rightarrow> bool" where
  "is_absolute p \<longleftrightarrow> prefix ''/'' p"

definition after_last_slash :: "string \<Rightarrow> string" where
  "after_last_slash s = rev (takeWhile (\<lambda>c. c \<noteq> CHR ''/'') (rev s))"

definition entryPath :: "config \<Rightarrow> string \<Rightarrow> string" where
  "entryPath c contractName = path_resolve (cwd c) [contractsDir c, contractName @ ''.sol'']"

definition cacheKey :: "config \<Rightarrow> string \<Rightarrow> string" where
  "cacheKey c contractName = path_basename (entryPath c contractName) ''.sol''"

subsection \<open>The resolver as a relation\<close>

text \<open>
  The two state changes of \<open>processFile\<close>, and its runs without the fuel: a run of
  \<open>processFile\<close> or of its loop from one state to another.
\<close>

definition record_file :: "resolver_state \<Rightarrow> string \<Rightarrow> string \<Rightarrow> string \<Rightarrow> resolver_state" where
  "record_file st filePath sourceKey source =
     st\<lparr> processedPaths := processedPaths st @ [filePath],
         sources := js_set sourceKey source (sources st) \<rparr>"

definition log_events :: "resolver_state \<Rightarrow> event list \<Rightarrow> resolver_state" where
  "log_events st es = st\<lparr> events := events st @ es \<rparr>"

inductive processFile_rel ::
    "config \<Rightarrow> filesystem \<Rightarrow> string \<Rightarrow> string \<Rightarrow> string \<Rightarrow> resolver_state \<Rightarrow> resolver_state \<Rightarrow> bool"
  and processImports_rel ::
    "config \<Rightarrow> filesystem \<Rightarrow> string list \<Rightarrow> string \<Rightarrow> resolver_state \<Rightarrow> resolver_state \<Rightarrow> bool"
  for c :: config and fs :: filesystem
where
  file_seen: "filePath \<in> set (processedPaths st) \<Longrightarrow> processFile_rel c fs source filePath sourceKey st st"
| file_fresh: "filePath \<notin> set (processedPaths st) \<Longrightarrow>
     processImports_rel c fs (importRegex_exec_all source) filePath
       (record_file st filePath sourceKey source) st' \<Longrightarrow>
     processFile_rel c fs source filePath sourceKey st st'"
| imports_nil: "processImports_rel c fs [] filePath st st"
| imports_skip: "findImports c fs importPath (Some filePath) = Inl e \<Longrightarrow>
     processImports_rel c fs rest filePath
       (log_events st [ReadFile (findImports_fullPath c importPath (Some filePath)),
                       Warn importPath filePath e]) st' \<Longrightarrow>
     processImports_rel c fs (importPath # rest) filePath st st'"
| imports_descend: "findImports c fs importPath (Some filePath) = Inr contents \<Longrightarrow>
     processFile_rel c fs contents (importFilePath c filePath importPath)
       (importSourceKey c filePath importPath)
       (log_events st [ReadFile (findImports_fullPath c importPath (Some filePath))]) st2 \<Longrightarrow>
     processImports_rel c fs rest filePath st2 st' \<Longrightarrow>
     processImports_rel c fs (importPath # rest) filePath st st'"

subsection \<open>Example source trees\<close>

text \<open>The compiler object of a checkout in \<open>/app\<close>, run from \<open>/app\<close>.\<close>

definition example_config :: config where
  "example_config = ContractCompiler_new ''/app'' ''/app/apps/contracts/src''"

subsection \<open>The cache seen from outside\<close>

text \<open>
  The number of compiler invocations in a trace, and the property of a cache that
  every key is the cache key of itself, as the keys written by \<open>compileContract\<close> are.
\<close>

definition is_compile :: "event \<Rightarrow> bool" where
  "is_compile e = (case e of SolcCompile _ \<Rightarrow> True | _ \<Rightarrow> False)"

definition compile_count :: "event list \<Rightarrow> nat" where
  "compile_count tr = length (filter is_compile tr)"

definition cache_ok :: "config \<Rightarrow> world \<Rightarrow> bool" where
  "cache_ok c w \<longleftrightarrow> (\<forall>k \<in> set (getCacheKeys w). cacheKey c k = k)"

text \<open>
  Two templates that import each other, a compiler that only warns, one that reports
  an error beside a warning, and a template in a subdirectory.
\<close>

definition cycle_fs :: filesystem where
  "cycle_fs = map_of
     [(''/app/apps/contracts/src/contracts/A.sol'', ''import \"./B.sol\";''),
      (''/app/apps/contracts/src/contracts/B.sol'', ''import \"./A.sol\";'')]"

definition warning_only_solc :: "compiler_input \<Rightarrow> compiler_output" where
  "warning_only_solc input =
     \<lparr> errors = Some [\<lparr> severity = ''warning'', message = ''unused variable'' \<rparr>],
       contracts = [(''A'', [(''StabilityA'',
          \<lparr> out_abi = ''[]'', evm_bytecode_object = ''6080'', out_metadata = ''{}'' \<rparr>)])] \<rparr>"

definition failing_solc :: "compiler_input \<Rightarrow> compiler_output" where
  "failing_solc input =
     \<lparr> errors = Some [\<lparr> severity = ''warning'', message = ''unused variable'' \<rparr>,
                      \<lparr> severity = ''error'', message = ''undeclared identifier'' \<rparr>],
       contracts = [] \<rparr>"

definition empty_world :: world where
  "empty_world = \<lparr> cache = [], trace = [] \<rparr>"

definition artifact_A :: CompiledContract where
  "artifact_A = \<lparr> bytecode = ''6080'', abi = ''[]'', metadata = ''{}'' \<rparr>"

definition cycle_sources :: "(string \<times> string) list" where
  "cycle_sources = [(''A'', ''import \"./B.sol\";''), (''B.sol'', ''import \"./A.sol\";'')]"

definition cycle_trace :: "event list" where
  "cycle_trace =
     [ReadFile ''/app/apps/contracts/src/contracts/A.sol'',
      ReadFile ''/app/apps/contracts/src/contracts/B.sol'',
      ReadFile ''/app/apps/contracts/src/contracts/A.sol'',
      SolcCompile (mk_input cycle_sources)]"

definition foo_fs :: filesystem where
  "foo_fs = map_of [(''/app/apps/contracts/src/contracts/a/Foo.sol'', ''contract Foo {}'')]"

text \<open>
  Templates whose name is a member that every object inherits, and a world whose cache
  holds the artifact of the template \<open>Foo\<close>.
\<close>

definition constructor_fs :: filesystem where
  "constructor_fs = map_of
     [(''/app/apps/contracts/src/contracts/constructor.sol'', ''contract Token {}''),
      (''/app/apps/contracts/src/contracts/a/constructor.sol'', ''contract Token {}'')]"

definition foo_world :: world where
  "foo_world = \<lparr> cache = [(''Foo'', artifact_A)],
                  trace = [ReadFile ''/app/apps/contracts/src/contracts/a/Foo.sol'',
                           SolcCompile (mk_input [(''Foo'', ''contract Foo {}'')])] \<rparr>"

text \<open>A template whose name is an array index, and a compiler response for it.\<close>

definition seven_fs :: filesystem where
  "seven_fs = map_of [(''/app/apps/contracts/src/contracts/7.sol'', ''contract Seven {}'')]"

definition seven_solc :: "compiler_input \<Rightarrow> compiler_output" where
  "seven_solc input =
     \<lparr> errors = None,
       contracts = [(''7'', [(''Seven'',
          \<lparr> out_abi = ''[]'', evm_bytecode_object = ''6080'', out_metadata = ''{}'' \<rparr>)])] \<rparr>"

definition foo_solc :: "compiler_input \<Rightarrow> compiler_output" where
  "foo_solc input =
     \<lparr> errors = None,
       contracts = [(''Foo'', [(''Foo'',
          \<lparr> out_abi = ''[]'', evm_bytecode_object = ''6080'', out_metadata = ''{}'' \<rparr>)])] \<rparr>"

subsection \<open>The import graph of a source tree\<close>

text \<open>
  The specifiers that the loop of \<open>processFile\<close> finds in a file, and the edge from a
  file to a file that one of its specifiers resolves to and that can be read.
\<close>

definition imports_of :: "filesystem \<Rightarrow> string \<Rightarrow> string list" where
  "imports_of fs filePath =
     (case fs filePath of None \<Rightarrow> [] | Some source \<Rightarrow> importRegex_exec_all source)"

definition import_edge :: "config \<Rightarrow> filesystem \<Rightarrow> string \<Rightarrow> string \<Rightarrow> bool" where
  "import_edge c fs p q \<longleftrightarrow>
     (\<exists>importPath \<in> set (imports_of fs p). q = importFilePath c p importPath \<and> fs q \<noteq> None)"

text \<open>
  Properties of a resolver state: the processed paths are files that exist; an import
  of a file is settled when it was read and then either processed or, where the read
  failed, reported by a warning that names the specifier and the importing file.
\<close>

definition real_files :: "filesystem \<Rightarrow> resolver_state \<Rightarrow> bool" where
  "real_files fs st \<longleftrightarrow> (\<forall>q \<in> set (processedPaths st). q \<noteq> [] \<and> fs q \<noteq> None)"

definition import_settled :: "config \<Rightarrow> filesystem \<Rightarrow> resolver_state \<Rightarrow> string \<Rightarrow> string \<Rightarrow> bool" where
  "import_settled c fs st filePath importPath \<longleftrightarrow>
     ReadFile (importFilePath c filePath importPath) \<in> set (events st)
     \<and> (case fs (importFilePath c filePath importPath) of
          None \<Rightarrow> Warn importPath filePath (ImportNotFound importPath (Some filePath))
                   \<in> set (events st)
        | Some contents \<Rightarrow> importFilePath c filePath importPath \<in> set (processedPaths st))"

definition file_settled :: "config \<Rightarrow> filesystem \<Rightarrow> resolver_state \<Rightarrow> string \<Rightarrow> bool" where
  "file_settled c fs st filePath \<longleftrightarrow>
     (\<forall>importPath \<in> set (imports_of fs filePath). import_settled c fs st filePath importPath)"

text \<open>The files that the root imports, directly or through other files.\<close>

definition reachable :: "config \<Rightarrow> filesystem \<Rightarrow> string \<Rightarrow> string \<Rightarrow> bool" where
  "reachable c fs root q \<longleftrightarrow> (import_edge c fs)\<^sup>*\<^sup>* root q"

text \<open>
  The object that a sequence of assignments \<open>sources[k] = v\<close> builds from the empty
  object.
\<close>

definition record_all :: "(string \<times> string) list \<Rightarrow> (string \<times> string) list" where
  "record_all kvs = foldl (\<lambda>obj (k, v). js_set k v obj) [] kvs"

text \<open>
  The keys a file can be filed under: the root under the basename of its path without
  \<open>.sol\<close>, an imported file under the key of an import that resolves to it. The
  sources of a state are recorded when they are the result of one assignment for each
  processed path, in order, of the content of that file under such a key.
\<close>

definition key_for :: "config \<Rightarrow> filesystem \<Rightarrow> string \<Rightarrow> string \<Rightarrow> string \<Rightarrow> bool" where
  "key_for c fs root q k \<longleftrightarrow>
     (q = root \<and> k = path_basename root ''.sol'')
     \<or> (\<exists>p i. reachable c fs root p \<and> i \<in> set (imports_of fs p) \<and> fs q \<noteq> None
           \<and> importFilePath c p i = q \<and> k = importSourceKey c p i)"

definition recorded :: "config \<Rightarrow> filesystem \<Rightarrow> string \<Rightarrow> resolver_state \<Rightarrow> bool" where
  "recorded c fs root st \<longleftrightarrow>
     (\<exists>kvs. sources st = record_all kvs
        \<and> list_all2 (\<lambda>q (k, v). key_for c fs root q k \<and> fs q = Some v) (processedPaths st) kvs)"

definition resolver_inv :: "config \<Rightarrow> filesystem \<Rightarrow> string \<Rightarrow> resolver_state \<Rightarrow> bool" where
  "resolver_inv c fs root st \<longleftrightarrow>
     (\<forall>q \<in> set (processedPaths st). reachable c fs root q)
     \<and> recorded c fs root st \<and> distinct (processedPaths st)"


text \<open>
  More source trees below the templates root of the example: a template \<open>A.sol\<close> and
  a file \<open>A\<close> that import each other, a root with one import that cannot be read, a
  root whose two imports share a third file, and a root that imports the same file by
  a bare and by a relative specifier.
\<close>

definition collide_fs :: filesystem where
  "collide_fs = map_of
     [(''/app/apps/contracts/src/contracts/A.sol'', ''import \"A\";''),
      (''/app/apps/contracts/src/contracts/A'', ''import \"./A.sol\";'')]"

definition broken_fs :: filesystem where
  "broken_fs = map_of
     [(''/app/apps/contracts/src/contracts/R.sol'',
         ''import \"./Missing.sol\"; import \"./B.sol\";''),
      (''/app/apps/contracts/src/contracts/B.sol'', ''contract B {}'')]"






text \<open>
  The path of an import in the words of the specification, which joins where the code
  resolves.
\<close>

definition spec_resolveImportPath :: "config \<Rightarrow> string \<Rightarrow> string option \<Rightarrow> string" where
  "spec_resolveImportPath c importPath basePath =
     (if prefix oz_prefix importPath then
        path_join [ozContractsDir c, drop (length oz_prefix) importPath]
      else if is_relative_import importPath then
        (case basePath of
           Some b \<Rightarrow> path_join [path_dirname b, importPath]
         | None \<Rightarrow> path_join [contractsDir c, importPath])
      else path_join [contractsDir c, importPath])"

text \<open>
  A root that imports a file named \<open>__proto__\<close> and a file named \<open>7\<close> by bare
  specifiers.
\<close>

definition proto_fs :: filesystem where
  "proto_fs = map_of
     [(''/app/apps/contracts/src/contracts/R.sol'', ''import \"__proto__\"; import \"7\";''),
      (''/app/apps/contracts/src/contracts/__proto__'', ''contract P {}''),
      (''/app/apps/contracts/src/contracts/7'', ''contract Seven {}'')]"

section \<open>Objects used as dictionaries\<close>

lemma insert_index_set: "set (insert_index n k v obj) = insert (k, v) (set obj)"
  by (induction obj) (auto split: option.splits if_splits)

lemma insert_index_map_of:
  "k \<notin> fst ` set obj \<Longrightarrow> map_of (insert_index n k v obj) = (map_of obj)(k \<mapsto> v)"
  by (induction obj) (auto split: option.splits simp: fun_upd_twist)

lemma insert_index_length: "length (insert_index n k v obj) = Suc (length obj)"
  by (induction obj) (auto split: option.splits)

lemma insert_index_distinct:
  "k \<notin> fst ` set obj \<Longrightarrow> distinct (map fst obj) \<Longrightarrow> distinct (map fst (insert_index n k v obj))"
  by (induction obj) (auto split: option.splits simp: insert_index_set image_iff)

lemma js_set_proto: "js_set ''__proto__'' v obj = obj"
  by (simp add: js_set_def)

lemma js_set_map_of:
  "k \<noteq> ''__proto__'' \<Longrightarrow> map_of (js_set k v obj) = (map_of obj)(k \<mapsto> v)"
  by (auto simp: js_set_def insert_index_map_of update_conv' split: option.splits)

lemma js_set_keys:
  "k \<noteq> ''__proto__'' \<Longrightarrow> fst ` set (js_set k v obj) = insert k (fst ` set obj)"
  by (auto simp: js_set_def insert_index_set dom_update image_iff split: option.splits)

lemma js_set_keys_subset: "fst ` set (js_set k v obj) \<subseteq> insert k (fst ` set obj)"
  by (cases "k = ''__proto__''") (auto simp: js_set_keys js_set_proto)

lemma js_set_set: "set (js_set k v obj) \<subseteq> insert (k, v) (set obj)"
proof -
  have "set (AList.update k v obj) \<subseteq> insert (k, v) (set obj)" by (induction obj) auto
  then show ?thesis by (auto simp: js_set_def insert_index_set split: option.splits)
qed

lemma js_set_distinct: "distinct (map fst obj) \<Longrightarrow> distinct (map fst (js_set k v obj))"
  by (auto simp: js_set_def insert_index_distinct distinct_update split: option.splits)

lemma js_set_length: "length (js_set k v obj) \<le> Suc (length obj)"
proof -
  have "length (AList.update k v obj) = (if k \<in> fst ` set obj then length obj else Suc (length obj))"
    by (induction obj) auto
  then show ?thesis by (auto simp: js_set_def insert_index_length split: option.splits)
qed

text \<open>An assignment keeps the order of enumeration.\<close>

lemma insert_index_ordered:
  "js_ordered obj \<Longrightarrow> array_index k = Some n \<Longrightarrow> js_ordered (insert_index n k v obj)"
proof (induction obj rule: js_ordered.induct)
  case 1
  then show ?case by simp
next
  case (2 kv)
  then show ?case by (cases kv) (auto split: option.splits)
next
  case (3 k1 v1 k2 v2 rest)
  then show ?case by (auto split: option.splits)
qed

lemma update_ordered:
  "js_ordered obj \<Longrightarrow> k \<in> fst ` set obj \<or> array_index k = None \<Longrightarrow>
   js_ordered (AList.update k v obj)"
proof (induction obj rule: js_ordered.induct)
  case 1
  then show ?case by simp
next
  case (2 kv)
  then show ?case by (cases kv) (auto split: option.splits)
next
  case (3 k1 v1 k2 v2 rest)
  have "k \<noteq> k1 \<Longrightarrow> k \<in> fst ` set ((k2, v2) # rest) \<or> array_index k = None"
    using "3.prems"(2) by auto
  then have "k \<noteq> k1 \<Longrightarrow> js_ordered (AList.update k v ((k2, v2) # rest))"
    using "3.IH" "3.prems"(1) by simp
  then show ?case using "3.prems"(1) by (auto split: option.splits)
qed

lemma js_set_ordered: "js_ordered obj \<Longrightarrow> js_ordered (js_set k v obj)"
  by (auto simp: js_set_def insert_index_ordered update_ordered split: option.splits)

lemma proto_inherited: "''__proto__'' \<in> set object_prototype_members"
  by (simp add: object_prototype_members_def)

lemma js_get_None:
  "js_get obj k = None \<longleftrightarrow> map_of obj k = None \<and> k \<notin> set object_prototype_members"
  by (simp add: js_get_def split: option.splits)

lemma js_get_Value: "js_get obj k = Some (Value v) \<longleftrightarrow> map_of obj k = Some v"
  by (auto simp: js_get_def split: option.splits)

lemma js_get_set:
  assumes "js_get obj k = None"
  shows "map_of (js_set k v obj) k = Some v"
proof -
  have "k \<noteq> ''__proto__''" using assms proto_inherited by (auto simp: js_get_None)
  then show ?thesis by (simp add: js_set_map_of)
qed

section \<open>Paths\<close>

lemma split_on_nonempty: "split_on d s \<noteq> []"
  by (induction s) (auto split: list.splits)

lemma split_on_append: "split_on d (a @ d # b) = split_on d a @ split_on d b"
proof (induction a)
  case Nil
  then show ?case by simp
next
  case (Cons c a)
  then show ?case
    using split_on_nonempty [of d a] by (cases "split_on d a") (auto split: list.splits)
qed

lemma split_on_no_sep: "d \<notin> set s \<Longrightarrow> split_on d s = [s]"
  by (induction s) auto

lemma normalizeSegs_last:
  "s \<noteq> [] \<Longrightarrow> s \<noteq> ''.'' \<Longrightarrow> s \<noteq> ''..'' \<Longrightarrow>
   \<exists>ys. normalizeSegs a acc (xs @ [s, []]) = ys @ [s]"
proof (induction xs arbitrary: acc)
  case Nil
  then show ?case by simp
next
  case (Cons x xs)
  then show ?case by (auto split: list.splits)
qed

lemma join_path_snoc:
  "\<exists>z. join_path (ys @ [s]) = z @ s \<and> (z = [] \<or> last z = CHR ''/'')"
proof (induction ys)
  case Nil
  then show ?case by simp
next
  case (Cons y ys)
  then obtain z where z: "join_path (ys @ [s]) = z @ s" "z = [] \<or> last z = CHR ''/''" by blast
  obtain t ts where t: "ys @ [s] = t # ts" by (cases "ys @ [s]") auto
  have "join_path ((y # ys) @ [s]) = y @ CHR ''/'' # join_path (ys @ [s])"
    using t by simp
  also have "\<dots> = (y @ CHR ''/'' # z) @ s" using z by simp
  finally show ?case using z(2) by (intro exI [of _ "y @ CHR ''/'' # z"]) auto
qed

lemma last_segment_snoc:
  assumes "s \<noteq> []" "CHR ''/'' \<notin> set s" "z = [] \<or> last z = CHR ''/''"
  shows "last_segment (CHR ''/'' # z @ s) = s"
proof -
  have "last s \<in> set s" using assms(1) by (rule last_in_set)
  then have "last s \<noteq> CHR ''/''" using assms(2) by metis
  then have rs: "rev s \<noteq> []" "hd (rev s) \<noteq> CHR ''/''"
    using assms(1) by (simp_all add: hd_rev)
  have d: "dropWhile (\<lambda>c. c = CHR ''/'') (rev s @ rev z @ ''/'') = rev s @ rev z @ ''/''"
    using rs by (cases "rev s") auto
  have hz: "hd (rev z @ ''/'') = CHR ''/''"
    using assms(3) by (cases z rule: rev_cases) auto
  have "takeWhile (\<lambda>c. c \<noteq> CHR ''/'') (rev s @ (rev z @ ''/'')) = rev s"
  proof -
    have "\<forall>c \<in> set (rev s). c \<noteq> CHR ''/''" using assms(2) by auto
    moreover obtain h t where "rev z @ ''/'' = h # t" "h = CHR ''/''"
      using hz by (cases "rev z @ ''/''") auto
    ultimately show ?thesis by (simp add: takeWhile_append2 del: set_rev)
  qed
  then show ?thesis using d by (simp add: last_segment_def)
qed

lemma after_last_slash_split:
  "\<exists>m. n = m @ after_last_slash n \<and> (m = [] \<or> last m = CHR ''/'')
       \<and> CHR ''/'' \<notin> set (after_last_slash n)"
proof -
  let ?P = "\<lambda>c. c \<noteq> CHR ''/''"
  have "rev n = takeWhile ?P (rev n) @ dropWhile ?P (rev n)" by simp
  then have "n = rev (dropWhile ?P (rev n)) @ rev (takeWhile ?P (rev n))"
    by (metis rev_append rev_rev_ident)
  moreover have "dropWhile ?P (rev n) = [] \<or> hd (dropWhile ?P (rev n)) = CHR ''/''"
    using hd_dropWhile [of ?P "rev n"] by auto
  then have "rev (dropWhile ?P (rev n)) = [] \<or> last (rev (dropWhile ?P (rev n))) = CHR ''/''"
    by (auto simp: last_rev)
  moreover have "CHR ''/'' \<notin> set (rev (takeWhile ?P (rev n)))"
    using set_takeWhileD [of "CHR ''/''" ?P "rev n"] by auto
  ultimately show ?thesis unfolding after_last_slash_def by blast
qed

lemma resolve_entry_shape:
  assumes "is_absolute d"
  shows "\<exists>q. resolve_collect (rev [d, n @ ''.sol''] @ [wd]) []
            = (q @ CHR ''/'' # after_last_slash n @ ''.sol'' @ ''/'', True)"
proof -
  obtain m where m: "n = m @ after_last_slash n" "m = [] \<or> last m = CHR ''/''"
    "CHR ''/'' \<notin> set (after_last_slash n)"
    using after_last_slash_split by blast
  let ?x = "after_last_slash n"
  obtain d' where d: "d = CHR ''/'' # d'" using assms by (auto simp: is_absolute_def prefix_def)
  show ?thesis
  proof (cases "m = []")
    case True
    then have n: "n = ?x" using m(1) by simp
    have "hd (n @ ''.sol'') \<noteq> CHR ''/''"
      using m(3) n by (cases n) auto
    then have "resolve_collect (rev [d, n @ ''.sol''] @ [wd]) []
        = (d @ CHR ''/'' # n @ ''.sol'' @ ''/'', True)"
      using d by simp
    then show ?thesis using n by (intro exI [of _ d]) simp
  next
    case False
    then obtain m' where m': "m = m' @ ''/''" using m(2)
      by (cases m rule: rev_cases) auto
    have nn: "n @ ''.sol'' @ ''/'' = m' @ CHR ''/'' # ?x @ ''.sol'' @ ''/''"
      using m(1) m' by (metis append.assoc append_Cons append_Nil)
    show ?thesis
    proof (cases "hd (n @ ''.sol'') = CHR ''/''")
      case True
      then have "resolve_collect (rev [d, n @ ''.sol''] @ [wd]) [] = (n @ ''.sol'' @ ''/'', True)"
        by simp
      then show ?thesis using nn by (intro exI [of _ m']) simp
    next
      case False
      then have "resolve_collect (rev [d, n @ ''.sol''] @ [wd]) []
          = (d @ CHR ''/'' # n @ ''.sol'' @ ''/'', True)"
        using d by simp
      then show ?thesis using nn by (intro exI [of _ "d @ CHR ''/'' # m'"]) simp
    qed
  qed
qed

lemma entryPath_shape:
  assumes "is_absolute (contractsDir c)"
  shows "\<exists>z. entryPath c n = CHR ''/'' # z @ after_last_slash n @ ''.sol''
            \<and> (z = [] \<or> last z = CHR ''/'')"
proof -
  let ?s = "after_last_slash n @ ''.sol''"
  obtain q where q: "resolve_collect (rev [contractsDir c, n @ ''.sol''] @ [cwd c]) []
            = (q @ CHR ''/'' # ?s @ ''/'', True)"
    using resolve_entry_shape [OF assms] by auto
  have ns: "CHR ''/'' \<notin> set ?s" using after_last_slash_split [of n] by auto
  have sp: "split_on CHR ''/'' (q @ CHR ''/'' # ?s @ ''/'') = split_on CHR ''/'' q @ [?s, []]"
    using split_on_append [of "CHR ''/''" q "?s @ ''/''"] split_on_append [of "CHR ''/''" ?s "[]"]
      split_on_no_sep [OF ns] by simp
  have norm: "?s \<noteq> []" "?s \<noteq> ''.''" "?s \<noteq> ''..''"
    by (auto simp: append_eq_Cons_conv)
  obtain ys where ys: "normalizeSegs False [] (split_on CHR ''/'' q @ [?s, []]) = ys @ [?s]"
    using normalizeSegs_last [OF norm] by blast
  obtain z where z: "join_path (ys @ [?s]) = z @ ?s" "z = [] \<or> last z = CHR ''/''"
    using join_path_snoc by blast
  have "entryPath c n = CHR ''/'' # z @ ?s"
    using q sp ys z(1) by (simp add: entryPath_def path_resolve_def normalizeString_def)
  then show ?thesis using z(2) by blast
qed

lemma cacheKey_eq:
  assumes "is_absolute (contractsDir c)"
  shows "cacheKey c n = (if after_last_slash n = [] then ''.sol'' else after_last_slash n)"
proof -
  let ?x = "after_last_slash n"
  let ?s = "?x @ ''.sol''"
  obtain z where z: "entryPath c n = CHR ''/'' # z @ ?s" "z = [] \<or> last z = CHR ''/''"
    using entryPath_shape [OF assms] by blast
  have ns: "CHR ''/'' \<notin> set ?s" using after_last_slash_split [of n] by auto
  have seg: "last_segment (entryPath c n) = ?s"
    using last_segment_snoc [of ?s z] ns z by simp
  have len: "length ''.sol'' \<le> length (entryPath c n)" using z(1) by simp
  have ne: "''.sol'' \<noteq> entryPath c n" using z(1) by simp
  show ?thesis
  proof (cases "?x = []")
    case True
    then show ?thesis using seg len ne
      by (simp add: cacheKey_def path_basename_def Let_def)
  next
    case False
    have "suffix ''.sol'' ?s" by (simp add: suffix_def)
    moreover have "?s \<noteq> ''.sol''" using False by simp
    ultimately show ?thesis using seg len ne False
      by (simp add: cacheKey_def path_basename_def Let_def)
  qed
qed

lemma after_last_slash_no_sep: "CHR ''/'' \<notin> set s \<Longrightarrow> after_last_slash s = s"
proof -
  assume "CHR ''/'' \<notin> set s"
  then have "takeWhile (\<lambda>c. c \<noteq> CHR ''/'') (rev s) = rev s"
    by (intro takeWhile_eq_all_conv[THEN iffD2]) auto
  then show ?thesis unfolding after_last_slash_def by (metis rev_rev_ident)
qed

lemma cacheKey_no_slash:
  assumes "is_absolute (contractsDir c)"
  shows "CHR ''/'' \<notin> set (cacheKey c n)"
  using after_last_slash_split [of n] by (auto simp: cacheKey_eq [OF assms])

lemma cacheKey_idem:
  assumes "is_absolute (contractsDir c)"
  shows "cacheKey c (cacheKey c n) = cacheKey c n"
proof -
  have "after_last_slash (cacheKey c n) = cacheKey c n"
    using cacheKey_no_slash [OF assms] by (rule after_last_slash_no_sep)
  moreover have "cacheKey c n \<noteq> []" by (simp add: cacheKey_eq [OF assms])
  ultimately show ?thesis using cacheKey_eq [OF assms, of "cacheKey c n"] by simp
qed

text \<open>
  The constructor resolves both directories, so they are absolute whenever the working
  directory of the process is.
\<close>

lemma resolve_collect_absolute:
  "is_absolute wd \<Longrightarrow> snd (resolve_collect (xs @ [wd]) acc)"
proof (induction xs arbitrary: acc)
  case Nil
  then show ?case by (auto simp: is_absolute_def prefix_def)
next
  case (Cons x xs)
  then show ?case by simp
qed

lemma path_resolve_absolute: "is_absolute wd \<Longrightarrow> is_absolute (path_resolve wd args)"
proof -
  assume "is_absolute wd"
  then have "snd (resolve_collect (rev args @ [wd]) [])" by (rule resolve_collect_absolute)
  then obtain r where "resolve_collect (rev args @ [wd]) [] = (r, True)"
    by (cases "resolve_collect (rev args @ [wd]) []") auto
  then show ?thesis by (simp add: path_resolve_def is_absolute_def Let_def)
qed

lemma ContractCompiler_new_absolute:
  assumes "is_absolute wd"
  shows "is_absolute (contractsDir (ContractCompiler_new wd dirname))"
    and "is_absolute (ozContractsDir (ContractCompiler_new wd dirname))"
  using assms by (simp_all add: ContractCompiler_new_def Let_def path_resolve_absolute)

text \<open>
  \<open>path.resolve\<close> on plain paths: a plain path is appended to a plain absolute
  path, a leading \<open>./\<close> is dropped, a leading \<open>../\<close> removes the last segment of
  the path before it, and an absolute argument replaces what stands before it.
  \<open>path.dirname\<close> of a file in a directory is the directory.
\<close>

lemma join_split:
  assumes "d = CHR ''/''"
  shows "join_path (split_on d s) = s"
  using assms
proof (induction s)
  case Nil
  then show ?case by simp
next
  case (Cons c s)
  obtain x xs where x: "split_on d s = x # xs"
    using split_on_nonempty [of d s] by (cases "split_on d s") auto
  show ?case using Cons x by (cases xs) auto
qed

lemma join_path_append:
  "xs \<noteq> [] \<Longrightarrow> ys \<noteq> [] \<Longrightarrow> join_path (xs @ ys) = join_path xs @ CHR ''/'' # join_path ys"
proof (induction xs rule: join_path.induct)
  case 1
  then show ?case by simp
next
  case (2 s)
  then show ?case by (cases ys) auto
next
  case (3 s t ss)
  then show ?case by simp
qed

lemma normalizeSegs_plain:
  "list_all plain_segment xs \<Longrightarrow> normalizeSegs a acc (xs @ ys) = normalizeSegs a (rev xs @ acc) ys"
  by (induction xs arbitrary: acc) (auto simp: plain_segment_def)

lemma plain_path_nonempty: "plain_path p \<Longrightarrow> p \<noteq> [] \<and> hd p \<noteq> CHR ''/''"
  by (cases p) (auto simp: plain_path_def plain_segment_def split: list.splits)

lemma resolve_plain_segments:
  assumes "plain_absolute root" "list_all plain_segment ss" "ss \<noteq> []"
    and "normalizeSegs False (rev (split_on CHR ''/'' (tl root))) (split_on CHR ''/'' arg @ [[]]) = ss"
    and "arg \<noteq> []" "hd arg \<noteq> CHR ''/''"
  shows "path_resolve wd [root, arg] = CHR ''/'' # join_path ss"
proof -
  obtain r0 where root: "root = CHR ''/'' # r0" and r0: "plain_path r0"
    using assms(1) by (cases root) (auto simp: plain_absolute_def)
  have rc: "resolve_collect (rev [root, arg] @ [wd]) [] = (root @ CHR ''/'' # arg @ ''/'', True)"
    using assms(5,6) root by simp
  have sp: "split_on CHR ''/'' (root @ CHR ''/'' # arg @ ''/'')
      = [] # split_on CHR ''/'' r0 @ split_on CHR ''/'' arg @ [[]]"
    using split_on_append [of "CHR ''/''" r0 "arg @ ''/''"] split_on_append [of "CHR ''/''" arg "[]"]
    by (simp add: root)
  have "normalizeSegs False [] ([] # split_on CHR ''/'' r0 @ split_on CHR ''/'' arg @ [[]])
      = normalizeSegs False (rev (split_on CHR ''/'' r0)) (split_on CHR ''/'' arg @ [[]])"
    using normalizeSegs_plain [of "split_on CHR ''/'' r0" False "[]"] r0
    by (simp add: plain_path_def)
  then have "normalizeString (root @ CHR ''/'' # arg @ ''/'') False = join_path ss"
    using sp assms(4) root by (simp add: normalizeString_def)
  then show ?thesis using rc by (simp add: path_resolve_def)
qed

lemma path_resolve_plain:
  assumes "plain_absolute root" "plain_path rem"
  shows "path_resolve wd [root, rem] = root @ CHR ''/'' # rem"
    and "path_resolve wd [root, ''./'' @ rem] = root @ CHR ''/'' # rem"
proof -
  obtain r0 where root: "root = CHR ''/'' # r0" and r0: "plain_path r0"
    using assms(1) by (cases root) (auto simp: plain_absolute_def)
  let ?rs = "split_on CHR ''/'' r0" and ?ss = "split_on CHR ''/'' rem"
  have pl: "list_all plain_segment ?rs" "list_all plain_segment ?ss"
    using r0 assms(2) by (simp_all add: plain_path_def)
  have ne: "?rs \<noteq> []" "?ss \<noteq> []" by (simp_all add: split_on_nonempty)
  have n1: "normalizeSegs False (rev ?rs) (?ss @ [[]]) = ?rs @ ?ss"
    using normalizeSegs_plain [OF pl(2), of False "rev ?rs" "[[]]"] by simp
  have j: "CHR ''/'' # join_path (?rs @ ?ss) = root @ CHR ''/'' # rem"
    using join_path_append [OF ne] by (simp add: join_split root)
  have all: "list_all plain_segment (?rs @ ?ss)" using pl by simp
  show "path_resolve wd [root, rem] = root @ CHR ''/'' # rem"
    using resolve_plain_segments [OF assms(1) all _ _ _ _, of rem wd] n1 ne
      plain_path_nonempty [OF assms(2)] j by (simp add: root)
  have sp2: "split_on CHR ''/'' (''./'' @ rem) = ''.'' # ?ss"
    using split_on_append [of "CHR ''/''" "''.''" rem] by simp
  have n2: "normalizeSegs False (rev ?rs) (split_on CHR ''/'' (''./'' @ rem) @ [[]]) = ?rs @ ?ss"
    using n1 unfolding sp2 by simp
  show "path_resolve wd [root, ''./'' @ rem] = root @ CHR ''/'' # rem"
    using resolve_plain_segments [OF assms(1) all _ _ _ _, of "''./'' @ rem" wd] n2 ne j
    by (simp add: root)
qed

lemma path_resolve_parent:
  assumes "plain_absolute d" "plain_segment e" "plain_path rem"
  shows "path_resolve wd [d @ CHR ''/'' # e, ''../'' @ rem] = d @ CHR ''/'' # rem"
proof -
  obtain r0 where d: "d = CHR ''/'' # r0" and r0: "plain_path r0"
    using assms(1) by (cases d) (auto simp: plain_absolute_def)
  let ?rs = "split_on CHR ''/'' r0" and ?ss = "split_on CHR ''/'' rem"
  have pl: "list_all plain_segment ?rs" "list_all plain_segment ?ss"
    using r0 assms(3) by (simp_all add: plain_path_def)
  have ne: "?rs \<noteq> []" "?ss \<noteq> []" by (simp_all add: split_on_nonempty)
  have e: "split_on CHR ''/'' e = [e]" using assms(2) by (simp add: plain_segment_def split_on_no_sep)
  have spd: "split_on CHR ''/'' (r0 @ CHR ''/'' # e) = ?rs @ [e]"
    using split_on_append [of "CHR ''/''" r0 e] e by simp
  have pd: "plain_absolute (d @ CHR ''/'' # e)"
    using pl(1) assms(2) spd by (simp add: d plain_absolute_def plain_path_def)
  have sp2: "split_on CHR ''/'' (''../'' @ rem) = ''..'' # ?ss"
    using split_on_append [of "CHR ''/''" "''..''" rem] by simp
  have "e \<noteq> ''..''" using assms(2) by (simp add: plain_segment_def)
  then have n2: "normalizeSegs False (rev (split_on CHR ''/'' (tl (d @ CHR ''/'' # e))))
       (split_on CHR ''/'' (''../'' @ rem) @ [[]]) = ?rs @ ?ss"
    using normalizeSegs_plain [OF pl(2), of False "rev ?rs" "[[]]"]
    unfolding sp2 by (simp add: d spd)
  have j: "CHR ''/'' # join_path (?rs @ ?ss) = d @ CHR ''/'' # rem"
    using join_path_append [OF ne] by (simp add: join_split d)
  have all: "list_all plain_segment (?rs @ ?ss)" using pl by simp
  show ?thesis
    using resolve_plain_segments [OF pd all _ n2, of wd] ne j by simp
qed

lemma path_dirname_file:
  assumes "d \<noteq> []" "last d \<noteq> CHR ''/''" "f \<noteq> []" "CHR ''/'' \<notin> set f"
  shows "path_dirname (d @ CHR ''/'' # f) = d"
proof -
  obtain c0 d' where d: "d = c0 # d'" using assms(1) by (cases d) auto
  have rf: "rev f \<noteq> []" "hd (rev f) \<noteq> CHR ''/''"
    using assms(3,4) by (auto simp: hd_rev) (metis last_in_set)
  have 1: "dropWhile (\<lambda>c. c = CHR ''/'') (rev f @ CHR ''/'' # rev d') = rev f @ CHR ''/'' # rev d'"
    using rf by (cases "rev f") auto
  have 2: "dropWhile (\<lambda>c. c \<noteq> CHR ''/'') (rev f @ CHR ''/'' # rev d') = CHR ''/'' # rev d'"
  proof -
    have "\<forall>x \<in> set (rev f). x \<noteq> CHR ''/''" using assms(4) by auto
    then show ?thesis by (simp add: dropWhile_append2 del: set_rev)
  qed
  have 3: "\<not> (c0 = CHR ''/'' \<and> d' = [])" using assms(2) d by auto
  show ?thesis using 1 2 3 by (simp add: path_dirname_def d)
qed

lemma path_resolve_absolute_arg:
  "is_absolute rem \<Longrightarrow> path_resolve wd [root, rem] = path_resolve wd [rem]"
  by (cases rem) (auto simp: is_absolute_def path_resolve_def)

section \<open>The resolver function and its runs\<close>

lemma processFile_seen:
  "filePath \<in> set (processedPaths st) \<Longrightarrow> processFile (Suc n) c fs source filePath sourceKey st = Some st"
  by simp

lemma processFile_fresh:
  "filePath \<notin> set (processedPaths st) \<Longrightarrow>
   processFile (Suc n) c fs source filePath sourceKey st =
     processImports n c fs (importRegex_exec_all source) filePath
       (record_file st filePath sourceKey source)"
  by (simp add: record_file_def)

lemma processImports_skip:
  "findImports c fs importPath (Some filePath) = Inl e \<Longrightarrow>
   processImports n c fs (importPath # rest) filePath st =
     processImports n c fs rest filePath
       (log_events st [ReadFile (findImports_fullPath c importPath (Some filePath)),
                       Warn importPath filePath e])"
  by (simp add: log_events_def Let_def)

lemma processImports_descend:
  "findImports c fs importPath (Some filePath) = Inr contents \<Longrightarrow>
   processImports n c fs (importPath # rest) filePath st =
     (case processFile n c fs contents (importFilePath c filePath importPath)
             (importSourceKey c filePath importPath)
             (log_events st [ReadFile (findImports_fullPath c importPath (Some filePath))]) of
        None \<Rightarrow> None
      | Some st2 \<Rightarrow> processImports n c fs rest filePath st2)"
  by (simp add: log_events_def Let_def)

lemma processImports_rel_sound:
  assumes IH: "\<And>source filePath sourceKey st st'.
      processFile n c fs source filePath sourceKey st = Some st' \<Longrightarrow>
      processFile_rel c fs source filePath sourceKey st st'"
  shows "processImports n c fs imps filePath st = Some st' \<Longrightarrow>
         processImports_rel c fs imps filePath st st'"
proof (induction imps arbitrary: st)
  case Nil
  then show ?case by (simp add: imports_nil)
next
  case (Cons importPath rest)
  show ?case
  proof (cases "findImports c fs importPath (Some filePath)")
    case (Inl e)
    from Cons.prems have "processImports n c fs rest filePath
       (log_events st [ReadFile (findImports_fullPath c importPath (Some filePath)),
                       Warn importPath filePath e]) = Some st'"
      unfolding processImports_skip [OF Inl] .
    then show ?thesis using Inl Cons.IH imports_skip by blast
  next
    case (Inr contents)
    let ?st1 = "log_events st [ReadFile (findImports_fullPath c importPath (Some filePath))]"
    from Cons.prems obtain st2 where
      a: "processFile n c fs contents (importFilePath c filePath importPath)
             (importSourceKey c filePath importPath) ?st1 = Some st2"
      and b: "processImports n c fs rest filePath st2 = Some st'"
      unfolding processImports_descend [OF Inr] by (auto split: option.splits)
    from a have "processFile_rel c fs contents (importFilePath c filePath importPath)
             (importSourceKey c filePath importPath) ?st1 st2" by (rule IH)
    moreover from b have "processImports_rel c fs rest filePath st2 st'" by (rule Cons.IH)
    ultimately show ?thesis using Inr imports_descend by blast
  qed
qed

lemma processFile_rel_sound:
  "processFile n c fs source filePath sourceKey st = Some st' \<Longrightarrow>
   processFile_rel c fs source filePath sourceKey st st'"
proof (induction n arbitrary: source filePath sourceKey st st')
  case 0
  then show ?case by simp
next
  case (Suc n)
  show ?case
  proof (cases "filePath \<in> set (processedPaths st)")
    case True
    from Suc.prems have "st' = st" unfolding processFile_seen [OF True] by simp
    then show ?thesis using True file_seen by blast
  next
    case False
    from Suc.prems have "processImports n c fs (importRegex_exec_all source) filePath
       (record_file st filePath sourceKey source) = Some st'"
      unfolding processFile_fresh [OF False] .
    then have "processImports_rel c fs (importRegex_exec_all source) filePath
       (record_file st filePath sourceKey source) st'"
      using Suc.IH by (rule processImports_rel_sound [rotated])
    then show ?thesis using False file_fresh by blast
  qed
qed

section \<open>Import resolution\<close>

lemma str_replace_prefix:
  assumes "prefix pat s" "pat \<noteq> []"
  shows "str_replace pat [] s = drop (length pat) s"
proof -
  obtain c cs where s: "s = c # cs" using assms by (cases s) auto
  have "str_includes s pat" using assms(1) s by simp
  moreover have "before_first pat s = []" using assms(1) s by simp
  moreover have "after_first pat s = drop (length pat) s" using assms(1) s by simp
  ultimately show ?thesis by (simp add: str_replace_def)
qed

lemma findImports_fullPath_library:
  "findImports_fullPath c (''@openzeppelin/contracts/'' @ rem) basePath
     = path_resolve (cwd c) [ozContractsDir c, rem]"
proof -
  have "str_replace oz_prefix [] (oz_prefix @ rem) = drop (length oz_prefix) (oz_prefix @ rem)"
    by (rule str_replace_prefix) (simp_all add: oz_prefix_def)
  then show ?thesis by (simp add: findImports_fullPath_def oz_prefix_def)
qed

lemma relative_not_library: "is_relative_import i \<Longrightarrow> \<not> prefix oz_prefix i"
  by (auto simp: is_relative_import_def oz_prefix_def prefix_def)

lemma findImports_fullPath_relative:
  assumes "is_relative_import i" "d \<noteq> []" "last d \<noteq> CHR ''/''" "f \<noteq> []" "CHR ''/'' \<notin> set f"
  shows "findImports_fullPath c i (Some (d @ CHR ''/'' # f)) = path_resolve (cwd c) [d, i]"
  using assms(1) relative_not_library [OF assms(1)] path_dirname_file [OF assms(2-5)]
  by (simp add: findImports_fullPath_def)

lemma findImports_fullPath_unknown:
  assumes "is_relative_import i" "basePath = None \<or> basePath = Some []"
  shows "findImports_fullPath c i basePath = path_resolve (cwd c) [contractsDir c, i]"
  using assms relative_not_library [OF assms(1)] by (auto simp: findImports_fullPath_def)

lemma findImports_fullPath_other:
  assumes "\<not> prefix ''@openzeppelin/contracts/'' i" "\<not> is_relative_import i"
  shows "findImports_fullPath c i basePath = path_resolve (cwd c) [contractsDir c, i]"
  using assms by (simp add: findImports_fullPath_def oz_prefix_def)

text \<open>
  Claim C5, amended. \<open>findImports\<close> classifies a specifier by the first test that
  holds and resolves it with \<open>path.resolve\<close>. A specifier that starts with the
  library prefix has the prefix removed, and the remainder is resolved against the
  library root; one that starts with \<open>./\<close> or \<open>../\<close> is resolved against the
  directory of the importing file when that file is given, and against the templates
  root when it is not given or empty; every other specifier is resolved against the
  templates root. Where the root is a plain absolute path and the remainder a plain
  path, resolving appends the remainder to the root; a leading \<open>./\<close> is dropped, and
  a leading \<open>../\<close> removes the last segment of the directory. An absolute remainder
  or specifier is not appended: it is resolved by itself and the root is ignored. The
  file at the resulting path is what is read.
\<close>

theorem findImports_classification:
  "(importPath = ''@openzeppelin/contracts/'' @ rem \<longrightarrow>
      findImports_fullPath c importPath basePath = path_resolve (cwd c) [ozContractsDir c, rem]
      \<and> (plain_absolute (ozContractsDir c) \<and> plain_path rem \<longrightarrow>
           findImports_fullPath c importPath basePath = ozContractsDir c @ CHR ''/'' # rem)
      \<and> (is_absolute rem \<longrightarrow>
           findImports_fullPath c importPath basePath = path_resolve (cwd c) [rem]))
   \<and> ((prefix ''./'' importPath \<or> prefix ''../'' importPath)
        \<and> basePath = Some (d @ CHR ''/'' # f) \<and> d \<noteq> [] \<and> last d \<noteq> CHR ''/''
        \<and> f \<noteq> [] \<and> CHR ''/'' \<notin> set f \<longrightarrow>
      findImports_fullPath c importPath basePath = path_resolve (cwd c) [d, importPath]
      \<and> (plain_absolute d \<and> importPath = ''./'' @ rem \<and> plain_path rem \<longrightarrow>
           findImports_fullPath c importPath basePath = d @ CHR ''/'' # rem)
      \<and> (d = d' @ CHR ''/'' # e \<and> plain_absolute d' \<and> plain_segment e
            \<and> importPath = ''../'' @ rem \<and> plain_path rem \<longrightarrow>
           findImports_fullPath c importPath basePath = d' @ CHR ''/'' # rem))
   \<and> ((prefix ''./'' importPath \<or> prefix ''../'' importPath)
        \<and> (basePath = None \<or> basePath = Some []) \<longrightarrow>
      findImports_fullPath c importPath basePath = path_resolve (cwd c) [contractsDir c, importPath]
      \<and> (plain_absolute (contractsDir c) \<and> importPath = ''./'' @ rem \<and> plain_path rem \<longrightarrow>
           findImports_fullPath c importPath basePath = contractsDir c @ CHR ''/'' # rem))
   \<and> (\<not> prefix ''@openzeppelin/contracts/'' importPath
        \<and> \<not> (prefix ''./'' importPath \<or> prefix ''../'' importPath) \<longrightarrow>
      findImports_fullPath c importPath basePath = path_resolve (cwd c) [contractsDir c, importPath]
      \<and> (plain_absolute (contractsDir c) \<and> plain_path importPath \<longrightarrow>
           findImports_fullPath c importPath basePath = contractsDir c @ CHR ''/'' # importPath)
      \<and> (is_absolute importPath \<longrightarrow>
           findImports_fullPath c importPath basePath = path_resolve (cwd c) [importPath]))
   \<and> findImports c fs importPath basePath =
     (case fs (findImports_fullPath c importPath basePath) of
        Some contents \<Rightarrow> Inr contents
      | None \<Rightarrow> Inl (ImportNotFound importPath basePath))"
proof -
  let ?full = "findImports_fullPath c importPath basePath"
  have rel: "is_relative_import importPath \<longleftrightarrow> prefix ''./'' importPath \<or> prefix ''../'' importPath"
    by (simp add: is_relative_import_def)
  have 1: "importPath = ''@openzeppelin/contracts/'' @ rem \<longrightarrow>
      ?full = path_resolve (cwd c) [ozContractsDir c, rem]
      \<and> (plain_absolute (ozContractsDir c) \<and> plain_path rem \<longrightarrow>
           ?full = ozContractsDir c @ CHR ''/'' # rem)
      \<and> (is_absolute rem \<longrightarrow> ?full = path_resolve (cwd c) [rem])"
    using findImports_fullPath_library [of c rem basePath]
      path_resolve_plain(1) [of "ozContractsDir c" rem "cwd c"]
      path_resolve_absolute_arg [of rem "cwd c" "ozContractsDir c"]
    by simp
  have 2: "(prefix ''./'' importPath \<or> prefix ''../'' importPath)
        \<and> basePath = Some (d @ CHR ''/'' # f) \<and> d \<noteq> [] \<and> last d \<noteq> CHR ''/''
        \<and> f \<noteq> [] \<and> CHR ''/'' \<notin> set f \<longrightarrow>
      ?full = path_resolve (cwd c) [d, importPath]
      \<and> (plain_absolute d \<and> importPath = ''./'' @ rem \<and> plain_path rem \<longrightarrow>
           ?full = d @ CHR ''/'' # rem)
      \<and> (d = d' @ CHR ''/'' # e \<and> plain_absolute d' \<and> plain_segment e
            \<and> importPath = ''../'' @ rem \<and> plain_path rem \<longrightarrow>
           ?full = d' @ CHR ''/'' # rem)"
  proof (intro impI)
    assume a: "(prefix ''./'' importPath \<or> prefix ''../'' importPath)
        \<and> basePath = Some (d @ CHR ''/'' # f) \<and> d \<noteq> [] \<and> last d \<noteq> CHR ''/''
        \<and> f \<noteq> [] \<and> CHR ''/'' \<notin> set f"
    then have full: "?full = path_resolve (cwd c) [d, importPath]"
      using findImports_fullPath_relative [of importPath d f c] rel by simp
    have "plain_absolute d \<and> importPath = ''./'' @ rem \<and> plain_path rem \<longrightarrow>
           ?full = d @ CHR ''/'' # rem"
      using full path_resolve_plain(2) [of d rem "cwd c"] by auto
    moreover have "d = d' @ CHR ''/'' # e \<and> plain_absolute d' \<and> plain_segment e
            \<and> importPath = ''../'' @ rem \<and> plain_path rem \<longrightarrow>
           ?full = d' @ CHR ''/'' # rem"
      using full path_resolve_parent [of d' e rem "cwd c"] by auto
    ultimately show "?full = path_resolve (cwd c) [d, importPath]
      \<and> (plain_absolute d \<and> importPath = ''./'' @ rem \<and> plain_path rem \<longrightarrow>
           ?full = d @ CHR ''/'' # rem)
      \<and> (d = d' @ CHR ''/'' # e \<and> plain_absolute d' \<and> plain_segment e
            \<and> importPath = ''../'' @ rem \<and> plain_path rem \<longrightarrow>
           ?full = d' @ CHR ''/'' # rem)"
      using full by blast
  qed
  have 3: "(prefix ''./'' importPath \<or> prefix ''../'' importPath)
        \<and> (basePath = None \<or> basePath = Some []) \<longrightarrow>
      ?full = path_resolve (cwd c) [contractsDir c, importPath]
      \<and> (plain_absolute (contractsDir c) \<and> importPath = ''./'' @ rem \<and> plain_path rem \<longrightarrow>
           ?full = contractsDir c @ CHR ''/'' # rem)"
    using findImports_fullPath_unknown [of importPath basePath c] rel
      path_resolve_plain(2) [of "contractsDir c" rem "cwd c"]
    by auto
  have 4: "\<not> prefix ''@openzeppelin/contracts/'' importPath
        \<and> \<not> (prefix ''./'' importPath \<or> prefix ''../'' importPath) \<longrightarrow>
      ?full = path_resolve (cwd c) [contractsDir c, importPath]
      \<and> (plain_absolute (contractsDir c) \<and> plain_path importPath \<longrightarrow>
           ?full = contractsDir c @ CHR ''/'' # importPath)
      \<and> (is_absolute importPath \<longrightarrow> ?full = path_resolve (cwd c) [importPath])"
    using findImports_fullPath_other [of importPath c basePath] rel
      path_resolve_plain(1) [of "contractsDir c" importPath "cwd c"]
      path_resolve_absolute_arg [of importPath "cwd c" "contractsDir c"]
    by auto
  have 5: "findImports c fs importPath basePath =
     (case fs ?full of
        Some contents \<Rightarrow> Inr contents
      | None \<Rightarrow> Inl (ImportNotFound importPath basePath))"
    by (simp add: findImports_def)
  show ?thesis using 1 2 3 4 5 by blast
qed

lemma example_config_eq:
  "example_config = \<lparr> contractsDir = ''/app/apps/contracts/src/contracts'',
      ozContractsDir = ''/app/node_modules/@openzeppelin/contracts'', cwd = ''/app'' \<rparr>"
  by code_simp

text \<open>
  From \<open>contracts/Root.sol\<close>, a library specifier resolves below the library root and
  a relative and a bare specifier resolve into the templates directory. From
  \<open>contracts/sub/Root.sol\<close>, \<open>./Z.sol\<close> resolves into \<open>contracts/sub\<close>,
  \<open>../Z.sol\<close> and the bare \<open>W.sol\<close> into \<open>contracts\<close>.
\<close>

theorem findImports_classification_witness:
  "findImports_fullPath example_config ''@openzeppelin/contracts/x/Y.sol''
       (Some ''/app/apps/contracts/src/contracts/Root.sol'')
     = ''/app/node_modules/@openzeppelin/contracts/x/Y.sol''
   \<and> findImports_fullPath example_config ''./Z.sol''
       (Some ''/app/apps/contracts/src/contracts/Root.sol'')
     = ''/app/apps/contracts/src/contracts/Z.sol''
   \<and> findImports_fullPath example_config ''W.sol''
       (Some ''/app/apps/contracts/src/contracts/Root.sol'')
     = ''/app/apps/contracts/src/contracts/W.sol''
   \<and> findImports_fullPath example_config ''./Z.sol''
       (Some ''/app/apps/contracts/src/contracts/sub/Root.sol'')
     = ''/app/apps/contracts/src/contracts/sub/Z.sol''
   \<and> findImports_fullPath example_config ''../Z.sol''
       (Some ''/app/apps/contracts/src/contracts/sub/Root.sol'')
     = ''/app/apps/contracts/src/contracts/Z.sol''
   \<and> findImports_fullPath example_config ''W.sol''
       (Some ''/app/apps/contracts/src/contracts/sub/Root.sol'')
     = ''/app/apps/contracts/src/contracts/W.sol''
   \<and> findImports_fullPath example_config ''./Z.sol'' None
     = ''/app/apps/contracts/src/contracts/Z.sol''"
proof -
  let ?T = "''/app/apps/contracts/src/contracts''"
  let ?L = "''/app/node_modules/@openzeppelin/contracts''"
  let ?S = "''/app/apps/contracts/src/contracts/sub''"
  have c: "contractsDir example_config = ?T" "ozContractsDir example_config = ?L"
    by (simp_all add: example_config_eq)
  have pT: "plain_absolute (contractsDir example_config)" by code_simp
  have pL: "plain_absolute (ozContractsDir example_config)" by code_simp
  have pT': "plain_absolute ?T" by code_simp
  have pS: "plain_absolute ?S" by code_simp
  have p1: "plain_path ''x/Y.sol''" by code_simp
  have p2: "plain_path ''Z.sol''" by code_simp
  have p3: "plain_path ''W.sol''" by code_simp
  have p4: "plain_segment ''sub''" by code_simp
  have n: "\<not> prefix ''@openzeppelin/contracts/'' ''W.sol''
      \<and> \<not> (prefix ''./'' ''W.sol'' \<or> prefix ''../'' ''W.sol'')"
    by simp
  have r: "prefix ''./'' ''./Z.sol'' \<or> prefix ''../'' ''./Z.sol''"
      "prefix ''./'' ''../Z.sol'' \<or> prefix ''../'' ''../Z.sol''"
    by simp_all
  have e: "''@openzeppelin/contracts/x/Y.sol'' = ''@openzeppelin/contracts/'' @ ''x/Y.sol''"
      "''./Z.sol'' = ''./'' @ ''Z.sol''" "''../Z.sol'' = ''../'' @ ''Z.sol''"
      "?S = ?T @ CHR ''/'' # ''sub''"
    by simp_all
  have b: "?T \<noteq> [] \<and> last ?T \<noteq> CHR ''/'' \<and> ''Root.sol'' \<noteq> [] \<and> CHR ''/'' \<notin> set ''Root.sol''"
      "?S \<noteq> [] \<and> last ?S \<noteq> CHR ''/''"
    by simp_all
  have 1: "findImports_fullPath example_config ''@openzeppelin/contracts/x/Y.sol''
       (Some (?T @ CHR ''/'' # ''Root.sol'')) = ozContractsDir example_config @ CHR ''/'' # ''x/Y.sol''"
    using findImports_classification [where c = example_config
        and importPath = "''@openzeppelin/contracts/x/Y.sol''" and rem = "''x/Y.sol''"
        and basePath = "Some (?T @ CHR ''/'' # ''Root.sol'')"] e(1) pL p1
    by blast
  have 2: "findImports_fullPath example_config ''./Z.sol'' (Some (?T @ CHR ''/'' # ''Root.sol''))
     = ?T @ CHR ''/'' # ''Z.sol''"
    using findImports_classification [where c = example_config
        and importPath = "''./Z.sol''" and rem = "''Z.sol''"
        and basePath = "Some (?T @ CHR ''/'' # ''Root.sol'')" and d = ?T and f = "''Root.sol''"]
      r(1) e(2) b(1) pT' p2
    by blast
  have 3: "findImports_fullPath example_config ''W.sol'' (Some (?T @ CHR ''/'' # ''Root.sol''))
     = contractsDir example_config @ CHR ''/'' # ''W.sol''"
    using findImports_classification [where c = example_config
        and importPath = "''W.sol''" and basePath = "Some (?T @ CHR ''/'' # ''Root.sol'')"]
      n pT p3
    by blast
  have 4: "findImports_fullPath example_config ''./Z.sol'' (Some (?S @ CHR ''/'' # ''Root.sol''))
     = ?S @ CHR ''/'' # ''Z.sol''"
    using findImports_classification [where c = example_config
        and importPath = "''./Z.sol''" and rem = "''Z.sol''"
        and basePath = "Some (?S @ CHR ''/'' # ''Root.sol'')" and d = ?S and f = "''Root.sol''"]
      r(1) e(2) b pS p2
    by blast
  have 5: "findImports_fullPath example_config ''../Z.sol'' (Some (?S @ CHR ''/'' # ''Root.sol''))
     = ?T @ CHR ''/'' # ''Z.sol''"
    using findImports_classification [where c = example_config
        and importPath = "''../Z.sol''" and rem = "''Z.sol''"
        and basePath = "Some (?S @ CHR ''/'' # ''Root.sol'')" and d = ?S and f = "''Root.sol''"
        and d' = ?T and e = "''sub''"]
      r(2) e(3,4) b pT' p2 p4
    by blast
  have 6: "findImports_fullPath example_config ''W.sol'' (Some (?S @ CHR ''/'' # ''Root.sol''))
     = contractsDir example_config @ CHR ''/'' # ''W.sol''"
    using findImports_classification [where c = example_config
        and importPath = "''W.sol''" and basePath = "Some (?S @ CHR ''/'' # ''Root.sol'')"]
      n pT p3
    by blast
  have 7: "findImports_fullPath example_config ''./Z.sol'' None
     = contractsDir example_config @ CHR ''/'' # ''Z.sol''"
    using findImports_classification [where c = example_config
        and importPath = "''./Z.sol''" and rem = "''Z.sol''" and basePath = None]
      r(1) e(2) pT p2
    by blast
  show ?thesis using 1 2 3 4 5 6 7 by (simp add: c)
qed

text \<open>
  Claim C5 as stated fails where the remainder or the specifier is absolute: it is not
  joined with the root. The remainder of \<open>@openzeppelin/contracts//etc/passwd\<close> is
  \<open>/etc/passwd\<close>, and that is the path read, outside the library root, where joining
  gives a path below the library root; the bare specifier \<open>/etc/passwd\<close> is read as
  it is, outside the templates root.
\<close>

theorem absolute_remainder_counterexample:
  "findImports_fullPath example_config ''@openzeppelin/contracts//etc/passwd''
       (Some ''/app/apps/contracts/src/contracts/Root.sol'')
     = ''/etc/passwd''
   \<and> spec_resolveImportPath example_config ''@openzeppelin/contracts//etc/passwd''
       (Some ''/app/apps/contracts/src/contracts/Root.sol'')
     = ''/app/node_modules/@openzeppelin/contracts/etc/passwd''
   \<and> \<not> prefix (ozContractsDir example_config) ''/etc/passwd''
   \<and> findImports_fullPath example_config ''/etc/passwd''
       (Some ''/app/apps/contracts/src/contracts/Root.sol'')
     = ''/etc/passwd''
   \<and> spec_resolveImportPath example_config ''/etc/passwd''
       (Some ''/app/apps/contracts/src/contracts/Root.sol'')
     = ''/app/apps/contracts/src/contracts/etc/passwd''
   \<and> \<not> prefix (contractsDir example_config) ''/etc/passwd''"
  by code_simp

section \<open>The cache\<close>

lemma getContract_found:
  "js_get (cache w) (cacheKey c name) = Some r \<Longrightarrow> getContract n c fs solc name w = Some (Inr r, w)"
  by (simp add: getContract_def compileContract_def cacheKey_def entryPath_def)

lemma getContract_hit:
  "map_of (cache w) (cacheKey c name) = Some a \<Longrightarrow>
   getContract n c fs solc name w = Some (Inr (Value a), w)"
  by (rule getContract_found) (simp add: js_get_Value)

text \<open>
  A name whose cache key is a member that the cache inherits, and that is not stored,
  is answered with that member: nothing is read, compiled or stored.
\<close>

lemma getContract_inherited:
  "map_of (cache w) (cacheKey c name) = None \<Longrightarrow>
   cacheKey c name \<in> set object_prototype_members \<Longrightarrow>
   getContract n c fs solc name w = Some (Inr (Inherited (cacheKey c name)), w)"
  by (rule getContract_found) (simp add: js_get_def)

lemma getContract_unreadable:
  "js_get (cache w) (cacheKey c name) = None \<Longrightarrow> fs (entryPath c name) = None \<Longrightarrow>
   getContract n c fs solc name w
     = Some (Inl (FileReadError (entryPath c name)),
             w\<lparr> trace := trace w @ [ReadFile (entryPath c name)] \<rparr>)"
  by (simp add: getContract_def compileContract_def cacheKey_def entryPath_def Let_def)

lemma getContract_miss:
  assumes "js_get (cache w) (cacheKey c name) = None"
    and "fs (entryPath c name) = Some src"
    and "resolveAllImports_run n c fs src (entryPath c name) = Some st"
  shows "getContract n c fs solc name w =
     (let input = mk_input (sources st);
          output = solc input;
          w2 = w\<lparr> trace := trace w @ [ReadFile (entryPath c name)] @ events st @ [SolcCompile input] \<rparr>
      in if error_diagnostics output \<noteq> []
         then Some (Inl (CompilationErrors (error_diagnostics output)), w2)
         else (case extract_contract output (cacheKey c name) of
                 Inl e \<Rightarrow> Some (Inl e, w2)
               | Inr compiled \<Rightarrow>
                   Some (Inr (Value compiled),
                         w2\<lparr> cache := js_set (cacheKey c name) compiled (cache w) \<rparr>)))"
  using assms
  by (simp add: getContract_def compileContract_def cacheKey_def entryPath_def Let_def
      split: sum.splits)

lemma getContract_out_of_fuel:
  assumes "js_get (cache w) (cacheKey c name) = None"
    and "fs (entryPath c name) = Some src"
    and "resolveAllImports_run n c fs src (entryPath c name) = None"
  shows "getContract n c fs solc name w = None"
  using assms
  by (simp add: getContract_def compileContract_def cacheKey_def entryPath_def Let_def)

lemma compile_count_append [simp]:
  "compile_count (xs @ ys) = compile_count xs + compile_count ys"
  by (simp add: compile_count_def)

lemma resolver_events_no_compile:
  "processFile_rel c fs src p k st st' \<Longrightarrow> compile_count (events st') = compile_count (events st)"
  "processImports_rel c fs imps p st st' \<Longrightarrow> compile_count (events st') = compile_count (events st)"
proof (induction rule: processFile_rel_processImports_rel.inducts)
  case (file_seen filePath st source sourceKey)
  then show ?case by simp
next
  case (file_fresh filePath st source sourceKey st')
  then show ?case by (simp add: record_file_def)
next
  case (imports_nil filePath st)
  then show ?case by simp
next
  case (imports_skip importPath filePath e rest st st')
  then show ?case by (simp add: log_events_def compile_count_def is_compile_def)
next
  case (imports_descend importPath filePath contents st st2 rest st')
  then show ?case by (simp add: log_events_def compile_count_def is_compile_def)
qed

lemma resolveAllImports_run_no_compile:
  "resolveAllImports_run n c fs src p = Some st \<Longrightarrow> compile_count (events st) = 0"
  using resolver_events_no_compile(1) [OF processFile_rel_sound, of n c fs src p _ initial_state st]
  by (simp add: resolveAllImports_run_def initial_state_def compile_count_def)

lemma map_of_Some_key: "map_of al k = Some v \<Longrightarrow> k \<in> fst ` set al"
  by (meson domI domIff map_of_eq_None_iff)

lemma map_of_None_key: "map_of al k = None \<longleftrightarrow> k \<notin> fst ` set al"
  by (simp add: map_of_eq_None_iff)

text \<open>
  The ways in which \<open>getContract\<close> returns an artifact: from the cache, or after a
  compilation that stores it.
\<close>

lemma getContract_Value_cases:
  assumes "getContract n c fs solc name w = Some (Inr (Value a), w')"
  shows "(map_of (cache w) (cacheKey c name) = Some a \<and> w' = w)
       \<or> (js_get (cache w) (cacheKey c name) = None \<and>
          (\<exists>src st. fs (entryPath c name) = Some src
             \<and> resolveAllImports_run n c fs src (entryPath c name) = Some st
             \<and> error_diagnostics (solc (mk_input (sources st))) = []
             \<and> extract_contract (solc (mk_input (sources st))) (cacheKey c name) = Inr a
             \<and> w' = w\<lparr> trace := trace w @ [ReadFile (entryPath c name)] @ events st
                                   @ [SolcCompile (mk_input (sources st))],
                        cache := js_set (cacheKey c name) a (cache w) \<rparr>))"
proof (cases "js_get (cache w) (cacheKey c name)")
  case (Some r)
  then have "r = Value a" "w' = w" using assms getContract_found [OF Some] by simp_all
  then show ?thesis using Some by (simp add: js_get_Value)
next
  case None
  show ?thesis
  proof (cases "fs (entryPath c name)")
    case N2: None
    then show ?thesis using assms getContract_unreadable [where fs = fs, OF None N2] by simp
  next
    case (Some src)
    show ?thesis
    proof (cases "resolveAllImports_run n c fs src (entryPath c name)")
      case N3: None
      then show ?thesis using assms getContract_out_of_fuel [where fs = fs, OF None Some N3] by simp
    next
      case S3: (Some st)
      show ?thesis
        using assms None Some S3 unfolding getContract_miss [where fs = fs, OF None Some S3]
        by (auto simp: Let_def split: if_splits sum.splits)
    qed
  qed
qed

lemma getContract_stored:
  assumes "getContract n c fs solc name w = Some (Inr (Value a), w')"
  shows "map_of (cache w') (cacheKey c name) = Some a"
  using getContract_Value_cases [OF assms] by (auto simp: js_get_set)

lemma getContract_cache_change:
  assumes "getContract n c fs solc name w = Some (r, w')"
  shows "cache w' = cache w \<or> (\<exists>a. cache w' = js_set (cacheKey c name) a (cache w))"
proof (cases "js_get (cache w) (cacheKey c name)")
  case (Some b)
  then show ?thesis using assms getContract_found [OF Some] by auto
next
  case None
  show ?thesis
  proof (cases "fs (entryPath c name)")
    case N2: None
    then show ?thesis using assms getContract_unreadable [where fs = fs, OF None N2] by auto
  next
    case (Some src)
    show ?thesis
    proof (cases "resolveAllImports_run n c fs src (entryPath c name)")
      case N3: None
      then show ?thesis using assms getContract_out_of_fuel [where fs = fs, OF None Some N3] by simp
    next
      case S3: (Some st)
      show ?thesis
        using assms unfolding getContract_miss [where fs = fs, OF None Some S3]
        by (auto simp: Let_def split: if_splits sum.splits)
    qed
  qed
qed

lemma getContract_cache_keys:
  assumes "getContract n c fs solc name w = Some (r, w')"
  shows "set (getCacheKeys w') \<subseteq> insert (cacheKey c name) (set (getCacheKeys w))"
proof -
  have k: "set (getCacheKeys w') = fst ` set (cache w')" "set (getCacheKeys w) = fst ` set (cache w)"
    by (simp_all add: getCacheKeys_def)
  from getContract_cache_change [OF assms] show ?thesis
  proof
    assume "cache w' = cache w"
    then show ?thesis unfolding k by auto
  next
    assume "\<exists>a. cache w' = js_set (cacheKey c name) a (cache w)"
    then obtain a where "cache w' = js_set (cacheKey c name) a (cache w)" ..
    then have "fst ` set (cache w') \<subseteq> insert (cacheKey c name) (fst ` set (cache w))"
      by (simp only: js_set_keys_subset)
    then show ?thesis unfolding k by simp
  qed
qed

text \<open>The cache stays in the order of enumeration, so that its keys are \<open>Object.keys\<close>.\<close>

lemma getContract_cache_ordered:
  assumes "getContract n c fs solc name w = Some (r, w')" "js_ordered (cache w)"
  shows "js_ordered (cache w')"
  using getContract_cache_change [OF assms(1)] assms(2) by (auto simp: js_set_ordered)

lemma cache_ok_empty: "cache w = [] \<Longrightarrow> cache_ok c w"
  by (simp add: cache_ok_def getCacheKeys_def)

lemma cache_ok_clearCache: "cache_ok c (clearCache w)"
  by (simp add: cache_ok_def getCacheKeys_def clearCache_def)

lemma cache_ok_getContract:
  assumes "is_absolute (contractsDir c)" "cache_ok c w"
    and "getContract n c fs solc name w = Some (r, w')"
  shows "cache_ok c w'"
  using getContract_cache_keys [OF assms(3)] assms(2) cacheKey_idem [OF assms(1), of name]
  by (auto simp: cache_ok_def)

lemma cache_ok_lookup:
  assumes "is_absolute (contractsDir c)" "cache_ok c w" "map_of (cache w) name = Some a"
  shows "cacheKey c name = name"
  using assms map_of_Some_key [OF assms(3)] by (auto simp: cache_ok_def getCacheKeys_def)

text \<open>
  Claim C3, amended. A name whose cache key has a stored artifact is answered from the
  cache: the world, and with it the trace of file reads and compiler invocations, is
  unchanged. In a cache whose keys are cache keys of themselves, as the keys that
  \<open>getContract\<close> writes are, this holds for every name that is stored. And when
  \<open>getContract\<close> from the empty cache succeeds with a compiled artifact, a second
  call returns the same artifact and leaves the world as it is, so that the two calls
  together invoke the compiler once.
\<close>

theorem getContract_cache_hit:
  "(map_of (cache w) (cacheKey c name) = Some a \<longrightarrow>
      getContract n c fs solc name w = Some (Inr (Value a), w))
   \<and> (is_absolute (contractsDir c) \<and> cache_ok c w \<and> map_of (cache w) name = Some a \<longrightarrow>
      getContract n c fs solc name w = Some (Inr (Value a), w))
   \<and> (cache w = [] \<and> getContract n c fs solc name w = Some (Inr (Value a), w1) \<longrightarrow>
      getContract m c fs solc name w1 = Some (Inr (Value a), w1)
      \<and> compile_count (trace w1) = compile_count (trace w) + 1)"
proof (intro conjI impI)
  assume "map_of (cache w) (cacheKey c name) = Some a"
  then show "getContract n c fs solc name w = Some (Inr (Value a), w)" by (rule getContract_hit)
next
  assume a: "is_absolute (contractsDir c) \<and> cache_ok c w \<and> map_of (cache w) name = Some a"
  then have "cacheKey c name = name" using cache_ok_lookup by blast
  then show "getContract n c fs solc name w = Some (Inr (Value a), w)"
    using a getContract_hit [of w c name a] by simp
next
  assume a: "cache w = [] \<and> getContract n c fs solc name w = Some (Inr (Value a), w1)"
  then have miss: "map_of (cache w) (cacheKey c name) \<noteq> Some a" by simp
  from a getContract_Value_cases [of n c fs solc name w a w1] miss
  obtain src st where st: "resolveAllImports_run n c fs src (entryPath c name) = Some st"
    and w1: "w1 = w\<lparr> trace := trace w @ [ReadFile (entryPath c name)] @ events st
                                   @ [SolcCompile (mk_input (sources st))],
                        cache := js_set (cacheKey c name) a (cache w) \<rparr>"
    by auto
  have "map_of (cache w1) (cacheKey c name) = Some a"
    using a getContract_stored by blast
  then show "getContract m c fs solc name w1 = Some (Inr (Value a), w1)" by (rule getContract_hit)
  show "compile_count (trace w1) = compile_count (trace w) + 1"
    using w1 resolveAllImports_run_no_compile [OF st]
    by (simp add: compile_count_def is_compile_def)
qed

lemma cacheKey_simple:
  assumes "is_absolute (contractsDir c)" "name \<noteq> []" "CHR ''/'' \<notin> set name"
  shows "cacheKey c name = name"
  using cacheKey_eq [OF assms(1), of name] after_last_slash_no_sep [OF assms(3)] assms(2)
  by simp

text \<open>The two calls for the template \<open>A\<close> of the cyclic example.\<close>

theorem getContract_cache_hit_witness:
  "getContract 3 example_config cycle_fs warning_only_solc ''A'' empty_world
     = Some (Inr (Value artifact_A), \<lparr> cache = [(''A'', artifact_A)], trace = cycle_trace \<rparr>)
   \<and> getContract 0 example_config cycle_fs warning_only_solc ''A''
        \<lparr> cache = [(''A'', artifact_A)], trace = cycle_trace \<rparr>
     = Some (Inr (Value artifact_A), \<lparr> cache = [(''A'', artifact_A)], trace = cycle_trace \<rparr>)
   \<and> compile_count cycle_trace = 1"
proof -
  let ?w1 = "\<lparr> cache = [(''A'', artifact_A)], trace = cycle_trace \<rparr>"
  have run: "getContract 3 example_config cycle_fs warning_only_solc ''A'' empty_world
     = Some (Inr (Value artifact_A), ?w1)"
    by code_simp
  have e: "cache empty_world = []" "compile_count (trace empty_world) = 0"
    by (simp_all add: empty_world_def compile_count_def)
  from getContract_cache_hit [where w = empty_world and c = example_config and name = "''A''"
      and a = artifact_A and n = 3 and fs = cycle_fs and solc = warning_only_solc
      and ?w1.0 = ?w1 and m = 0] run e
  show ?thesis by simp
qed

text \<open>
  Claim C3 as stated fails in both directions. When the compiler reports an error
  nothing is stored, and the second call reads and compiles again: two compiler
  invocations and no artifact. And for the template \<open>constructor\<close>, whose file
  exists, the empty cache already answers with the member of that name that every
  object inherits and stays as it is, so that a second call does the same: no compiler
  invocation and no artifact.
\<close>

theorem getContract_twice_counterexample:
  "getContract 3 example_config cycle_fs failing_solc ''A'' empty_world
     = Some (Inl (CompilationErrors [\<lparr> severity = ''error'', message = ''undeclared identifier'' \<rparr>]),
             \<lparr> cache = [], trace = cycle_trace \<rparr>)
   \<and> getContract 3 example_config cycle_fs failing_solc ''A'' \<lparr> cache = [], trace = cycle_trace \<rparr>
     = Some (Inl (CompilationErrors [\<lparr> severity = ''error'', message = ''undeclared identifier'' \<rparr>]),
             \<lparr> cache = [], trace = cycle_trace @ cycle_trace \<rparr>)
   \<and> compile_count (cycle_trace @ cycle_trace) = 2
   \<and> constructor_fs (entryPath example_config ''constructor'') = Some ''contract Token {}''
   \<and> getContract 3 example_config constructor_fs foo_solc ''constructor'' empty_world
     = Some (Inr (Inherited ''constructor''), empty_world)
   \<and> compile_count (trace empty_world) = 0"
  by code_simp

text \<open>
  Claim C2, amended. If the lookup in the cache finds nothing for a name and the
  compiler's response holds a diagnostic of severity \<open>error\<close>, \<open>getContract\<close>
  fails with the compilation error that carries the diagnostics of severity
  \<open>error\<close> (the others are filtered out), the cache is unchanged, neither the cache
  key nor, in a cache whose keys are cache keys of themselves, the name is among
  \<open>getCacheKeys\<close> afterwards, and the next call invokes the compiler again.
\<close>

theorem failed_compile_not_cached:
  assumes "js_get (cache w) (cacheKey c name) = None"
    and "fs (entryPath c name) = Some src"
    and "resolveAllImports_run n c fs src (entryPath c name) = Some st"
    and "errors (solc (mk_input (sources st))) = Some ds"
    and "d \<in> set ds" and "severity d = ''error''"
  shows "\<exists>w'. getContract n c fs solc name w
           = Some (Inl (CompilationErrors (filter (\<lambda>d. severity d = ''error'') ds)), w')
      \<and> cache w' = cache w
      \<and> cacheKey c name \<notin> set (getCacheKeys w')
      \<and> (is_absolute (contractsDir c) \<and> cache_ok c w \<longrightarrow> name \<notin> set (getCacheKeys w'))
      \<and> (\<exists>w''. getContract n c fs solc name w'
             = Some (Inl (CompilationErrors (filter (\<lambda>d. severity d = ''error'') ds)), w'')
           \<and> compile_count (trace w'') = compile_count (trace w') + 1)"
proof -
  let ?input = "mk_input (sources st)"
  let ?errs = "filter (\<lambda>d. severity d = ''error'') ds"
  let ?ev = "[ReadFile (entryPath c name)] @ events st @ [SolcCompile ?input]"
  let ?w' = "w\<lparr> trace := trace w @ ?ev \<rparr>"
  let ?w'' = "?w'\<lparr> trace := trace ?w' @ ?ev \<rparr>"
  have ed: "error_diagnostics (solc ?input) = ?errs"
    using assms(4) by (simp add: error_diagnostics_def)
  have ne: "?errs \<noteq> []" using assms(5,6) by (auto simp: filter_empty_conv)
  have 1: "getContract n c fs solc name w = Some (Inl (CompilationErrors ?errs), ?w')"
    unfolding getContract_miss [where fs = fs, OF assms(1,2,3)] using ed ne by (simp add: Let_def)
  have miss': "js_get (cache ?w') (cacheKey c name) = None" using assms(1) by simp
  have 2: "getContract n c fs solc name ?w' = Some (Inl (CompilationErrors ?errs), ?w'')"
    unfolding getContract_miss [where fs = fs, OF miss' assms(2,3)] using ed ne by (simp add: Let_def)
  have 3: "cacheKey c name \<notin> set (getCacheKeys ?w')"
    using assms(1) by (simp add: getCacheKeys_def js_get_None map_of_None_key)
  have 4: "is_absolute (contractsDir c) \<and> cache_ok c w \<longrightarrow> name \<notin> set (getCacheKeys ?w')"
  proof (intro impI notI)
    assume a: "is_absolute (contractsDir c) \<and> cache_ok c w" and b: "name \<in> set (getCacheKeys ?w')"
    then have "name \<in> set (getCacheKeys w)" by (simp add: getCacheKeys_def)
    then have "cacheKey c name = name" using a by (simp add: cache_ok_def)
    then show False using 3 b by simp
  qed
  have 5: "compile_count (trace ?w'') = compile_count (trace ?w') + 1"
    using resolveAllImports_run_no_compile [OF assms(3)]
    by (simp add: compile_count_def is_compile_def)
  show ?thesis using 1 2 3 4 5 by (intro exI [of _ ?w']) simp
qed

lemma cycle_run:
  "resolveAllImports_run 3 example_config cycle_fs ''import \"./B.sol\";''
      (entryPath example_config ''A'')
    = Some \<lparr> sources = cycle_sources,
         processedPaths = [''/app/apps/contracts/src/contracts/A.sol'',
                           ''/app/apps/contracts/src/contracts/B.sol''],
         events = [ReadFile ''/app/apps/contracts/src/contracts/B.sol'',
                   ReadFile ''/app/apps/contracts/src/contracts/A.sol''] \<rparr>"
  by code_simp

lemma cycle_entry:
  "cycle_fs (entryPath example_config ''A'') = Some ''import \"./B.sol\";''"
  by code_simp

lemma cycle_key: "cacheKey example_config ''A'' = ''A''"
  by code_simp

lemma cycle_miss: "js_get (cache empty_world) (cacheKey example_config ''A'') = None"
  by code_simp

text \<open>The failing compiler on the cyclic example, called twice.\<close>

theorem failed_compile_not_cached_witness:
  "getContract 3 example_config cycle_fs failing_solc ''A'' empty_world
     = Some (Inl (CompilationErrors [\<lparr> severity = ''error'', message = ''undeclared identifier'' \<rparr>]),
             \<lparr> cache = [], trace = cycle_trace \<rparr>)
   \<and> getCacheKeys \<lparr> cache = [], trace = cycle_trace \<rparr> = []
   \<and> getContract 3 example_config cycle_fs failing_solc ''A'' \<lparr> cache = [], trace = cycle_trace \<rparr>
     = Some (Inl (CompilationErrors [\<lparr> severity = ''error'', message = ''undeclared identifier'' \<rparr>]),
             \<lparr> cache = [], trace = cycle_trace @ cycle_trace \<rparr>)
   \<and> compile_count (cycle_trace @ cycle_trace) = compile_count cycle_trace + 1"
proof -
  let ?d = "\<lparr> severity = ''error'', message = ''undeclared identifier'' \<rparr>"
  let ?ds = "[\<lparr> severity = ''warning'', message = ''unused variable'' \<rparr>, ?d]"
  have h4: "errors (failing_solc (mk_input (sources \<lparr> sources = cycle_sources,
         processedPaths = [''/app/apps/contracts/src/contracts/A.sol'',
                           ''/app/apps/contracts/src/contracts/B.sol''],
         events = [ReadFile ''/app/apps/contracts/src/contracts/B.sol'',
                   ReadFile ''/app/apps/contracts/src/contracts/A.sol''] \<rparr>))) = Some ?ds"
    by (simp add: failing_solc_def)
  have h5: "?d \<in> set ?ds" by simp
  have h6: "severity ?d = ''error''" by simp
  have r1: "getContract 3 example_config cycle_fs failing_solc ''A'' empty_world
     = Some (Inl (CompilationErrors [?d]), \<lparr> cache = [], trace = cycle_trace \<rparr>)"
    by code_simp
  have r2: "getContract 3 example_config cycle_fs failing_solc ''A'' \<lparr> cache = [], trace = cycle_trace \<rparr>
     = Some (Inl (CompilationErrors [?d]), \<lparr> cache = [], trace = cycle_trace @ cycle_trace \<rparr>)"
    by code_simp
  from failed_compile_not_cached [where fs = cycle_fs and solc = failing_solc,
      OF cycle_miss cycle_entry cycle_run h4 h5 h6] r1 r2
  show ?thesis by (auto simp: getCacheKeys_def)
qed

text \<open>
  Claim C2 as stated fails where the response holds a warning beside the error: the
  error raised carries the one diagnostic of severity \<open>error\<close>, not the list of the
  response.
\<close>

theorem error_carries_filtered_list_counterexample:
  "errors (failing_solc (mk_input cycle_sources))
     = Some [\<lparr> severity = ''warning'', message = ''unused variable'' \<rparr>,
             \<lparr> severity = ''error'', message = ''undeclared identifier'' \<rparr>]
   \<and> getContract 3 example_config cycle_fs failing_solc ''A'' empty_world
     = Some (Inl (CompilationErrors [\<lparr> severity = ''error'', message = ''undeclared identifier'' \<rparr>]),
             \<lparr> cache = [], trace = cycle_trace \<rparr>)
   \<and> getContract 3 example_config cycle_fs failing_solc ''A'' empty_world
     \<noteq> Some (Inl (CompilationErrors [\<lparr> severity = ''warning'', message = ''unused variable'' \<rparr>,
             \<lparr> severity = ''error'', message = ''undeclared identifier'' \<rparr>]),
             \<lparr> cache = [], trace = cycle_trace \<rparr>)"
  by code_simp

text \<open>
  Claim C6. Take a call that reaches the compiler, that is, one for which the lookup
  in the cache finds nothing. If every diagnostic of the response is of severity
  \<open>warning\<close> and the response has an entry with a first contract under the cache
  key, \<open>getContract\<close> succeeds with the artifact taken from that contract and
  stores it in the cache: the cache key, which is the name itself when the name is a
  plain file name, is among \<open>getCacheKeys\<close>, and the next call returns the stored
  artifact.
\<close>

theorem warnings_do_not_fail:
  assumes "js_get (cache w) (cacheKey c name) = None"
    and "fs (entryPath c name) = Some src"
    and "resolveAllImports_run n c fs src (entryPath c name) = Some st"
    and "errors (solc (mk_input (sources st))) = Some ds"
    and "\<forall>d \<in> set ds. severity d = ''warning''"
    and "map_of (contracts (solc (mk_input (sources st)))) (cacheKey c name)
           = Some ((contractKey, contract) # others)"
    and "artifact = \<lparr> bytecode = evm_bytecode_object contract, abi = out_abi contract,
                       metadata = out_metadata contract \<rparr>"
  shows "\<exists>w'. getContract n c fs solc name w = Some (Inr (Value artifact), w')
      \<and> map_of (cache w') (cacheKey c name) = Some artifact
      \<and> cacheKey c name \<in> set (getCacheKeys w')
      \<and> (is_absolute (contractsDir c) \<and> name \<noteq> [] \<and> CHR ''/'' \<notin> set name
            \<longrightarrow> name \<in> set (getCacheKeys w'))
      \<and> getContract m c fs solc name w' = Some (Inr (Value artifact), w')"
proof -
  let ?input = "mk_input (sources st)"
  let ?w' = "w\<lparr> trace := trace w @ [ReadFile (entryPath c name)] @ events st @ [SolcCompile ?input],
               cache := js_set (cacheKey c name) artifact (cache w) \<rparr>"
  have ed: "error_diagnostics (solc ?input) = []"
    using assms(4,5) by (auto simp: error_diagnostics_def filter_empty_conv)
  have ex: "extract_contract (solc ?input) (cacheKey c name) = Inr artifact"
    using assms(6,7) by (simp add: extract_contract_def)
  have 1: "getContract n c fs solc name w = Some (Inr (Value artifact), ?w')"
    unfolding getContract_miss [where fs = fs, OF assms(1,2,3)] using ed ex by (simp add: Let_def)
  have 2: "map_of (cache ?w') (cacheKey c name) = Some artifact"
    using assms(1) by (simp add: js_get_set)
  have 3: "cacheKey c name \<in> set (getCacheKeys ?w')"
    using map_of_Some_key [OF 2] by (simp add: getCacheKeys_def)
  have 4: "is_absolute (contractsDir c) \<and> name \<noteq> [] \<and> CHR ''/'' \<notin> set name
            \<longrightarrow> name \<in> set (getCacheKeys ?w')"
    using 3 cacheKey_simple [of c name] by auto
  have 5: "getContract m c fs solc name ?w' = Some (Inr (Value artifact), ?w')"
    using 2 by (rule getContract_hit)
  show ?thesis using 1 2 3 4 5 by blast
qed

text \<open>The compiler that only warns, on the cyclic example.\<close>

theorem warnings_do_not_fail_witness:
  "getContract 3 example_config cycle_fs warning_only_solc ''A'' empty_world
     = Some (Inr (Value artifact_A), \<lparr> cache = [(''A'', artifact_A)], trace = cycle_trace \<rparr>)
   \<and> getCacheKeys \<lparr> cache = [(''A'', artifact_A)], trace = cycle_trace \<rparr> = [''A'']"
proof -
  let ?st = "\<lparr> sources = cycle_sources,
         processedPaths = [''/app/apps/contracts/src/contracts/A.sol'',
                           ''/app/apps/contracts/src/contracts/B.sol''],
         events = [ReadFile ''/app/apps/contracts/src/contracts/B.sol'',
                   ReadFile ''/app/apps/contracts/src/contracts/A.sol''] \<rparr>"
  let ?co = "\<lparr> out_abi = ''[]'', evm_bytecode_object = ''6080'', out_metadata = ''{}'' \<rparr>"
  let ?ds = "[\<lparr> severity = ''warning'', message = ''unused variable'' \<rparr>]"
  have h4: "errors (warning_only_solc (mk_input (sources ?st))) = Some ?ds"
    by (simp add: warning_only_solc_def)
  have h5: "\<forall>d \<in> set ?ds. severity d = ''warning''" by simp
  have h6: "map_of (contracts (warning_only_solc (mk_input (sources ?st))))
              (cacheKey example_config ''A'') = Some ((''StabilityA'', ?co) # [])"
    by (simp add: warning_only_solc_def cycle_key)
  have h7: "artifact_A = \<lparr> bytecode = evm_bytecode_object ?co, abi = out_abi ?co,
                       metadata = out_metadata ?co \<rparr>"
    by (simp add: artifact_A_def)
  have r: "getContract 3 example_config cycle_fs warning_only_solc ''A'' empty_world
     = Some (Inr (Value artifact_A), \<lparr> cache = [(''A'', artifact_A)], trace = cycle_trace \<rparr>)"
    by code_simp
  from warnings_do_not_fail [where fs = cycle_fs and solc = warning_only_solc and m = 0,
      OF cycle_miss cycle_entry cycle_run h4 h5 h6 h7] r
  show ?thesis by (auto simp: getCacheKeys_def)
qed

text \<open>
  Claim C10, amended. The key under which \<open>getContract\<close> looks an artifact up and
  stores it is the basename of the entry path without \<open>.sol\<close>, not the name. A key
  has no path separator, and no call adds a key with one. A call that returns a
  compiled artifact leaves it stored under the cache key of the name, and then, when a
  second name has the same cache key, the call for the second name is answered with
  that artifact and changes nothing; \<open>a/Foo\<close> and \<open>b/Foo\<close> are such names, their
  key is \<open>Foo\<close>.
\<close>

theorem cache_key_is_basename:
  "cacheKey c name = path_basename (path_resolve (cwd c) [contractsDir c, name @ ''.sol'']) ''.sol''
   \<and> (map_of (cache w) (cacheKey c name) = Some a \<longrightarrow>
        getContract n c fs solc name w = Some (Inr (Value a), w))
   \<and> (getContract n c fs solc name w = Some (Inr (Value a), w') \<longrightarrow>
        map_of (cache w') (cacheKey c name) = Some a
        \<and> set (getCacheKeys w') \<subseteq> insert (cacheKey c name) (set (getCacheKeys w)))
   \<and> (is_absolute (contractsDir c) \<longrightarrow> CHR ''/'' \<notin> set (cacheKey c name))
   \<and> (is_absolute (contractsDir c) \<and> (\<forall>k \<in> set (getCacheKeys w). CHR ''/'' \<notin> set k)
        \<and> getContract n c fs solc name w = Some (r, w'') \<longrightarrow>
        (\<forall>k \<in> set (getCacheKeys w''). CHR ''/'' \<notin> set k))
   \<and> (cacheKey c n1 = cacheKey c n2 \<and> getContract n c fs solc n1 w = Some (Inr (Value a), w') \<longrightarrow>
        getContract m c fs solc n2 w' = Some (Inr (Value a), w'))
   \<and> (is_absolute (contractsDir c) \<longrightarrow>
        cacheKey c ''a/Foo'' = ''Foo'' \<and> cacheKey c ''b/Foo'' = ''Foo'')"
proof -
  have 1: "cacheKey c name
      = path_basename (path_resolve (cwd c) [contractsDir c, name @ ''.sol'']) ''.sol''"
    by (simp add: cacheKey_def entryPath_def)
  have 2: "map_of (cache w) (cacheKey c name) = Some a \<longrightarrow>
        getContract n c fs solc name w = Some (Inr (Value a), w)"
    using getContract_hit by blast
  have 3: "getContract n c fs solc name w = Some (Inr (Value a), w') \<longrightarrow>
        map_of (cache w') (cacheKey c name) = Some a
        \<and> set (getCacheKeys w') \<subseteq> insert (cacheKey c name) (set (getCacheKeys w))"
    using getContract_stored getContract_cache_keys by blast
  have 4: "is_absolute (contractsDir c) \<longrightarrow> CHR ''/'' \<notin> set (cacheKey c name)"
    using cacheKey_no_slash by blast
  have 5: "is_absolute (contractsDir c) \<and> (\<forall>k \<in> set (getCacheKeys w). CHR ''/'' \<notin> set k)
        \<and> getContract n c fs solc name w = Some (r, w'') \<longrightarrow>
        (\<forall>k \<in> set (getCacheKeys w''). CHR ''/'' \<notin> set k)"
  proof (intro impI ballI)
    fix k
    assume a: "is_absolute (contractsDir c) \<and> (\<forall>k \<in> set (getCacheKeys w). CHR ''/'' \<notin> set k)
        \<and> getContract n c fs solc name w = Some (r, w'')" and k: "k \<in> set (getCacheKeys w'')"
    then have "k = cacheKey c name \<or> k \<in> set (getCacheKeys w)"
      using getContract_cache_keys [of n c fs solc name w r w''] by auto
    then show "CHR ''/'' \<notin> set k" using a cacheKey_no_slash [of c name] by auto
  qed
  have 6: "cacheKey c n1 = cacheKey c n2 \<and> getContract n c fs solc n1 w = Some (Inr (Value a), w') \<longrightarrow>
        getContract m c fs solc n2 w' = Some (Inr (Value a), w')"
  proof (intro impI)
    assume a: "cacheKey c n1 = cacheKey c n2 \<and> getContract n c fs solc n1 w = Some (Inr (Value a), w')"
    then have "map_of (cache w') (cacheKey c n2) = Some a"
      using getContract_stored [of n c fs solc n1 w a w'] by simp
    then show "getContract m c fs solc n2 w' = Some (Inr (Value a), w')" by (rule getContract_hit)
  qed
  have als: "after_last_slash ''a/Foo'' = ''Foo''" "after_last_slash ''b/Foo'' = ''Foo''"
    by (simp_all add: after_last_slash_def)
  have 7: "is_absolute (contractsDir c) \<longrightarrow>
        cacheKey c ''a/Foo'' = ''Foo'' \<and> cacheKey c ''b/Foo'' = ''Foo''"
    using cacheKey_eq [of c "''a/Foo''"] cacheKey_eq [of c "''b/Foo''"] als by simp
  show ?thesis using 1 2 3 4 5 6 7 by blast
qed

text \<open>
  \<open>b/Foo\<close> is answered from the entry of \<open>a/Foo\<close> although no file
  \<open>b/Foo.sol\<close> exists.
\<close>

theorem cache_key_is_basename_witness:
  "is_absolute (contractsDir example_config)
   \<and> cacheKey example_config ''a/Foo'' = ''Foo'' \<and> cacheKey example_config ''b/Foo'' = ''Foo''
   \<and> getContract 1 example_config foo_fs foo_solc ''a/Foo'' empty_world
     = Some (Inr (Value artifact_A), foo_world)
   \<and> getContract 1 example_config foo_fs foo_solc ''b/Foo'' foo_world
     = Some (Inr (Value artifact_A), foo_world)
   \<and> getCacheKeys foo_world = [''Foo'']
   \<and> foo_fs (entryPath example_config ''b/Foo'') = None"
proof -
  have abs: "is_absolute (contractsDir example_config)" by code_simp
  have r: "getContract 1 example_config foo_fs foo_solc ''a/Foo'' empty_world
     = Some (Inr (Value artifact_A), foo_world)" by code_simp
  have n: "foo_fs (entryPath example_config ''b/Foo'') = None" by code_simp
  have g: "getCacheKeys foo_world = [''Foo'']" by code_simp
  note t = cache_key_is_basename [where c = example_config and name = "''a/Foo''"
      and w = empty_world and n = 1 and fs = foo_fs and solc = foo_solc and a = artifact_A
      and w' = foo_world and ?n1.0 = "''a/Foo''" and ?n2.0 = "''b/Foo''" and m = 1
      and r = "Inr (Value artifact_A)" and w'' = foo_world]
  from t abs have k: "cacheKey example_config ''a/Foo'' = ''Foo''"
      "cacheKey example_config ''b/Foo'' = ''Foo''" by blast+
  from t k r have hit: "getContract 1 example_config foo_fs foo_solc ''b/Foo'' foo_world
     = Some (Inr (Value artifact_A), foo_world)" by presburger
  show ?thesis using abs k r hit g n by blast
qed

text \<open>
  Claim C10 as stated fails for names whose basename every object inherits, and where
  the first call fails. \<open>a/constructor\<close> and \<open>b/constructor\<close> share the key
  \<open>constructor\<close>; the template \<open>a/constructor.sol\<close> exists, yet the call for it
  returns the inherited member and compiles and stores nothing, and so does the call
  for the second name. And after a first call that fails because the template
  \<open>a/Missing.sol\<close> cannot be read, the call for \<open>b/Missing\<close> is no cache hit: it
  reads the file system again.
\<close>

theorem inherited_basename_counterexample:
  "cacheKey example_config ''a/constructor'' = ''constructor''
   \<and> cacheKey example_config ''b/constructor'' = ''constructor''
   \<and> constructor_fs (entryPath example_config ''a/constructor'') = Some ''contract Token {}''
   \<and> getContract 1 example_config constructor_fs foo_solc ''a/constructor'' empty_world
     = Some (Inr (Inherited ''constructor''), empty_world)
   \<and> getContract 1 example_config constructor_fs foo_solc ''b/constructor'' empty_world
     = Some (Inr (Inherited ''constructor''), empty_world)
   \<and> getCacheKeys empty_world = []
   \<and> cacheKey example_config ''a/Missing'' = cacheKey example_config ''b/Missing''
   \<and> getContract 1 example_config foo_fs foo_solc ''a/Missing'' empty_world
     = Some (Inl (FileReadError ''/app/apps/contracts/src/contracts/a/Missing.sol''),
             \<lparr> cache = [], trace = [ReadFile ''/app/apps/contracts/src/contracts/a/Missing.sol''] \<rparr>)
   \<and> getContract 1 example_config foo_fs foo_solc ''b/Missing''
         \<lparr> cache = [], trace = [ReadFile ''/app/apps/contracts/src/contracts/a/Missing.sol''] \<rparr>
     = Some (Inl (FileReadError ''/app/apps/contracts/src/contracts/b/Missing.sol''),
             \<lparr> cache = [], trace = [ReadFile ''/app/apps/contracts/src/contracts/a/Missing.sol'',
                                    ReadFile ''/app/apps/contracts/src/contracts/b/Missing.sol''] \<rparr>)"
  by code_simp

text \<open>
  After \<open>Foo\<close>, the template \<open>7\<close> is compiled and stored: \<open>getCacheKeys\<close>
  lists the array index first.
\<close>

lemma index_name_listed_first_example:
  "getContract 1 example_config seven_fs seven_solc ''7'' foo_world
     = Some (Inr (Value artifact_A),
         \<lparr> cache = [(''7'', artifact_A), (''Foo'', artifact_A)],
           trace = trace foo_world
             @ [ReadFile ''/app/apps/contracts/src/contracts/7.sol'',
                SolcCompile (mk_input [(''7'', ''contract Seven {}'')])] \<rparr>)
   \<and> getCacheKeys \<lparr> cache = [(''7'', artifact_A), (''Foo'', artifact_A)],
           trace = trace foo_world
             @ [ReadFile ''/app/apps/contracts/src/contracts/7.sol'',
                SolcCompile (mk_input [(''7'', ''contract Seven {}'')])] \<rparr>
     = [''7'', ''Foo'']"
  by code_simp

section \<open>Properties of the resolver\<close>

lemma path_resolve_nonempty: "path_resolve wd args \<noteq> []"
  by (simp add: path_resolve_def Let_def split: prod.splits)

lemma importFilePath_nonempty: "importFilePath c p i \<noteq> []"
  by (simp add: importFilePath_def path_resolve_nonempty)

lemma findImports_fullPath_known:
  "p \<noteq> [] \<Longrightarrow> findImports_fullPath c i (Some p) = importFilePath c p i"
  by (simp add: findImports_fullPath_def importFilePath_def)

lemma findImports_Inr:
  "p \<noteq> [] \<Longrightarrow> findImports c fs i (Some p) = Inr contents \<longleftrightarrow> fs (importFilePath c p i) = Some contents"
  by (simp add: findImports_def findImports_fullPath_known split: option.splits)

lemma findImports_Inl:
  "p \<noteq> [] \<Longrightarrow> findImports c fs i (Some p) = Inl e \<longleftrightarrow>
     fs (importFilePath c p i) = None \<and> e = ImportNotFound i (Some p)"
  by (auto simp: findImports_def findImports_fullPath_known split: option.splits)

lemma rel_mono:
  "processFile_rel c fs src p k st st' \<Longrightarrow>
     set (processedPaths st) \<subseteq> set (processedPaths st') \<and> set (events st) \<subseteq> set (events st')
     \<and> p \<in> set (processedPaths st')"
  "processImports_rel c fs imps p st st' \<Longrightarrow>
     set (processedPaths st) \<subseteq> set (processedPaths st') \<and> set (events st) \<subseteq> set (events st')"
proof (induction rule: processFile_rel_processImports_rel.inducts)
  case (file_seen filePath st source sourceKey)
  then show ?case by simp
next
  case (file_fresh filePath st source sourceKey st')
  then show ?case by (auto simp: record_file_def)
next
  case (imports_nil filePath st)
  then show ?case by simp
next
  case (imports_skip importPath filePath e rest st st')
  then show ?case by (auto simp: log_events_def)
next
  case (imports_descend importPath filePath contents st st2 rest st')
  then show ?case by (auto simp: log_events_def)
qed

lemma import_settled_mono:
  assumes "import_settled c fs st p i"
    and "set (processedPaths st) \<subseteq> set (processedPaths st')" "set (events st) \<subseteq> set (events st')"
  shows "import_settled c fs st' p i"
  using assms by (auto simp: import_settled_def split: option.splits)

lemma file_settled_mono:
  assumes "file_settled c fs st p"
    and "set (processedPaths st) \<subseteq> set (processedPaths st')" "set (events st) \<subseteq> set (events st')"
  shows "file_settled c fs st' p"
  using assms import_settled_mono unfolding file_settled_def by blast

lemma rel_settled:
  "processFile_rel c fs src p k st st' \<Longrightarrow> p \<noteq> [] \<Longrightarrow> fs p = Some src \<Longrightarrow> real_files fs st \<Longrightarrow>
     real_files fs st'
     \<and> (\<forall>q \<in> set (processedPaths st') - set (processedPaths st). file_settled c fs st' q)"
  "processImports_rel c fs imps p st st' \<Longrightarrow> p \<noteq> [] \<Longrightarrow> real_files fs st \<Longrightarrow>
     real_files fs st'
     \<and> (\<forall>q \<in> set (processedPaths st') - set (processedPaths st). file_settled c fs st' q)
     \<and> (\<forall>i \<in> set imps. import_settled c fs st' p i)"
proof (induction rule: processFile_rel_processImports_rel.inducts)
  case (file_seen filePath st source sourceKey)
  then show ?case by simp
next
  case (file_fresh filePath st source sourceKey st')
  let ?st1 = "record_file st filePath sourceKey source"
  have wf1: "real_files fs ?st1"
    using file_fresh.prems by (auto simp: real_files_def record_file_def)
  from file_fresh.IH(2) [OF file_fresh.prems(1) wf1]
  have a: "real_files fs st'"
    and b: "\<forall>q \<in> set (processedPaths st') - set (processedPaths ?st1). file_settled c fs st' q"
    and d: "\<forall>i \<in> set (importRegex_exec_all source). import_settled c fs st' filePath i"
    by auto
  have self: "file_settled c fs st' filePath"
    using d file_fresh.prems(2) by (simp add: file_settled_def imports_of_def)
  have "set (processedPaths ?st1) = insert filePath (set (processedPaths st))"
    by (simp add: record_file_def)
  then show ?case using a b self by auto
next
  case (imports_nil filePath st)
  then show ?case by simp
next
  case (imports_skip importPath filePath e rest st st')
  let ?st1 = "log_events st [ReadFile (findImports_fullPath c importPath (Some filePath)),
                       Warn importPath filePath e]"
  have wf1: "real_files fs ?st1" using imports_skip.prems by (simp add: real_files_def log_events_def)
  from imports_skip.IH(3) [OF imports_skip.prems(1) wf1]
  have a: "real_files fs st'"
    and b: "\<forall>q \<in> set (processedPaths st') - set (processedPaths ?st1). file_settled c fs st' q"
    and d: "\<forall>i \<in> set rest. import_settled c fs st' filePath i"
    by auto
  have e: "fs (importFilePath c filePath importPath) = None" "e = ImportNotFound importPath (Some filePath)"
    using imports_skip.IH(1) imports_skip.prems(1) by (simp_all add: findImports_Inl)
  have "import_settled c fs ?st1 filePath importPath"
    using e imports_skip.prems(1)
    by (simp add: import_settled_def log_events_def findImports_fullPath_known)
  then have "import_settled c fs st' filePath importPath"
    using rel_mono(2) [OF imports_skip.IH(2)] import_settled_mono by blast
  moreover have "processedPaths ?st1 = processedPaths st" by (simp add: log_events_def)
  ultimately show ?case using a b d by auto
next
  case (imports_descend importPath filePath contents st st2 rest st')
  let ?t = "importFilePath c filePath importPath"
  let ?st1 = "log_events st [ReadFile (findImports_fullPath c importPath (Some filePath))]"
  have wf1: "real_files fs ?st1"
    using imports_descend.prems by (simp add: real_files_def log_events_def)
  have t: "fs ?t = Some contents"
    using imports_descend.IH(1) imports_descend.prems(1) by (simp add: findImports_Inr)
  from imports_descend.IH(3) [OF importFilePath_nonempty t wf1]
  have a2: "real_files fs st2"
    and b2: "\<forall>q \<in> set (processedPaths st2) - set (processedPaths ?st1). file_settled c fs st2 q"
    by auto
  from imports_descend.IH(5) [OF imports_descend.prems(1) a2]
  have a: "real_files fs st'"
    and b: "\<forall>q \<in> set (processedPaths st') - set (processedPaths st2). file_settled c fs st' q"
    and d: "\<forall>i \<in> set rest. import_settled c fs st' filePath i"
    by auto
  note m1 = rel_mono(1) [OF imports_descend.IH(2)]
  note m2 = rel_mono(2) [OF imports_descend.IH(4)]
  have p1: "processedPaths ?st1 = processedPaths st" by (simp add: log_events_def)
  have "import_settled c fs st2 filePath importPath"
    using t m1 imports_descend.prems(1)
    by (auto simp: import_settled_def log_events_def findImports_fullPath_known)
  then have s: "import_settled c fs st' filePath importPath"
    using m2 import_settled_mono by blast
  have new: "file_settled c fs st' q"
    if "q \<in> set (processedPaths st') - set (processedPaths st)" for q
  proof (cases "q \<in> set (processedPaths st2)")
    case True
    then have "file_settled c fs st2 q" using b2 that p1 by auto
    then show ?thesis using m2 file_settled_mono by blast
  next
    case False
    then show ?thesis using b that by auto
  qed
  show ?case using a new s d by auto
qed

lemma record_all_snoc: "record_all (kvs @ [(k, v)]) = js_set k v (record_all kvs)"
  by (simp add: record_all_def)

lemma resolver_inv_record:
  assumes "resolver_inv c fs root st" "reachable c fs root p" "key_for c fs root p k"
    "fs p = Some src" "p \<notin> set (processedPaths st)"
  shows "resolver_inv c fs root (record_file st p k src)"
proof -
  from assms(1) obtain kvs where kvs: "sources st = record_all kvs"
    "list_all2 (\<lambda>q (k, v). key_for c fs root q k \<and> fs q = Some v) (processedPaths st) kvs"
    by (auto simp: resolver_inv_def recorded_def)
  have "sources (record_file st p k src) = record_all (kvs @ [(k, src)])"
    using kvs(1) by (simp add: record_file_def record_all_snoc)
  moreover have "list_all2 (\<lambda>q (k, v). key_for c fs root q k \<and> fs q = Some v)
     (processedPaths (record_file st p k src)) (kvs @ [(k, src)])"
    using kvs(2) assms(3,4) by (simp add: record_file_def list_all2_appendI)
  ultimately have "recorded c fs root (record_file st p k src)"
    unfolding recorded_def by blast
  then show ?thesis using assms(1,2,5) by (auto simp: resolver_inv_def record_file_def)
qed

lemma resolver_inv_log: "resolver_inv c fs root (log_events st es) = resolver_inv c fs root st"
  by (simp add: resolver_inv_def recorded_def log_events_def)

lemma rel_inv:
  "processFile_rel c fs src p k st st' \<Longrightarrow> p \<noteq> [] \<Longrightarrow> fs p = Some src \<Longrightarrow>
     reachable c fs root p \<Longrightarrow> key_for c fs root p k \<Longrightarrow> resolver_inv c fs root st \<Longrightarrow>
     resolver_inv c fs root st'"
  "processImports_rel c fs imps p st st' \<Longrightarrow> p \<noteq> [] \<Longrightarrow> reachable c fs root p \<Longrightarrow>
     set imps \<subseteq> set (imports_of fs p) \<Longrightarrow> resolver_inv c fs root st \<Longrightarrow>
     resolver_inv c fs root st'"
proof (induction rule: processFile_rel_processImports_rel.inducts)
  case (file_seen filePath st source sourceKey)
  then show ?case by simp
next
  case (file_fresh filePath st source sourceKey st')
  have "resolver_inv c fs root (record_file st filePath sourceKey source)"
    using file_fresh.prems file_fresh.hyps by (simp add: resolver_inv_record)
  moreover have "set (importRegex_exec_all source) \<subseteq> set (imports_of fs filePath)"
    using file_fresh.prems(2) by (simp add: imports_of_def)
  ultimately show ?case using file_fresh.IH(2) file_fresh.prems by blast
next
  case (imports_nil filePath st)
  then show ?case by simp
next
  case (imports_skip importPath filePath e rest st st')
  then show ?case by (simp add: resolver_inv_log)
next
  case (imports_descend importPath filePath contents st st2 rest st')
  let ?t = "importFilePath c filePath importPath"
  have t: "fs ?t = Some contents"
    using imports_descend.IH(1) imports_descend.prems(1) by (simp add: findImports_Inr)
  have i: "importPath \<in> set (imports_of fs filePath)" using imports_descend.prems(3) by simp
  have "import_edge c fs filePath ?t" using t i by (auto simp: import_edge_def)
  then have r: "reachable c fs root ?t"
    using imports_descend.prems(2) by (simp add: reachable_def)
  have k: "key_for c fs root ?t (importSourceKey c filePath importPath)"
    using imports_descend.prems(2) i t by (auto simp: key_for_def)
  have "resolver_inv c fs root st2"
    using imports_descend.IH(3) [OF importFilePath_nonempty t r k] imports_descend.prems(4)
    by (simp add: resolver_inv_log)
  then show ?case using imports_descend.IH(5) imports_descend.prems by simp
qed

lemma rel_deterministic:
  "processFile_rel c fs src p k st st1 \<Longrightarrow> processFile_rel c fs src p k st st2 \<Longrightarrow> st1 = st2"
  "processImports_rel c fs imps p st st1 \<Longrightarrow> processImports_rel c fs imps p st st2 \<Longrightarrow> st1 = st2"
proof (induction arbitrary: st2 and st2 rule: processFile_rel_processImports_rel.inducts)
  case (file_seen filePath st source sourceKey)
  from file_seen.prems file_seen.hyps show ?case
    by (cases rule: processFile_rel.cases) auto
next
  case (file_fresh filePath st source sourceKey st')
  from file_fresh.prems file_fresh.hyps file_fresh.IH(2) show ?case
    by (cases rule: processFile_rel.cases) auto
next
  case (imports_nil filePath st)
  from imports_nil.prems show ?case
    by (cases rule: processImports_rel.cases) auto
next
  case (imports_skip importPath filePath e rest st st')
  from imports_skip.prems imports_skip.IH(1) imports_skip.IH(3) show ?case
    by (cases rule: processImports_rel.cases) auto
next
  case (imports_descend importPath filePath contents st st2' rest st')
  from imports_descend.prems show ?case
  proof (cases rule: processImports_rel.cases)
    case imports_skip
    then show ?thesis using imports_descend.IH(1) by simp
  next
    case (imports_descend contents' st2'')
    then have "contents' = contents" using imports_descend.IH(1) by simp
    then have "st2'' = st2'" using imports_descend(2) imports_descend.IH(3) by simp
    then show ?thesis using imports_descend(3) imports_descend.IH(5) by simp
  qed
qed

lemma foldl_js_set_distinct:
  "distinct (map fst obj) \<Longrightarrow>
   distinct (map fst (foldl (\<lambda>obj (k, v). js_set k v obj) obj kvs))"
  by (induction kvs arbitrary: obj) (auto simp: js_set_distinct)

lemma foldl_js_set_ordered:
  "js_ordered obj \<Longrightarrow> js_ordered (foldl (\<lambda>obj (k, v). js_set k v obj) obj kvs)"
  by (induction kvs arbitrary: obj) (auto simp: js_set_ordered)

lemma foldl_js_set_set:
  "set (foldl (\<lambda>obj (k, v). js_set k v obj) obj kvs) \<subseteq> set obj \<union> set kvs"
proof (induction kvs arbitrary: obj)
  case Nil
  then show ?case by simp
next
  case (Cons kv kvs)
  obtain k v where kv: "kv = (k, v)" by (cases kv)
  have "set (foldl (\<lambda>obj (k, v). js_set k v obj) (js_set k v obj) kvs)
      \<subseteq> set (js_set k v obj) \<union> set kvs" by (rule Cons.IH)
  then show ?case using js_set_set [of k v obj] kv by auto
qed

lemma foldl_js_set_length:
  "length (foldl (\<lambda>obj (k, v). js_set k v obj) obj kvs) \<le> length obj + length kvs"
proof (induction kvs arbitrary: obj)
  case Nil
  then show ?case by simp
next
  case (Cons kv kvs)
  obtain k v where kv: "kv = (k, v)" by (cases kv)
  have "length (foldl (\<lambda>obj (k, v). js_set k v obj) (js_set k v obj) kvs)
      \<le> length (js_set k v obj) + length kvs" by (rule Cons.IH)
  moreover have "length (js_set k v obj) \<le> Suc (length obj)" by (rule js_set_length)
  ultimately show ?case using kv by simp
qed

text \<open>
  The object after a sequence of assignments: a name holds the value of the last
  assignment to it, and \<open>__proto__\<close> holds none.
\<close>

lemma foldl_js_set_map_of:
  "map_of (foldl (\<lambda>obj (k, v). js_set k v obj) obj kvs) k
     = (if k = ''__proto__'' then map_of obj k
        else (case map_of (rev kvs) k of Some v \<Rightarrow> Some v | None \<Rightarrow> map_of obj k))"
proof (induction kvs arbitrary: obj)
  case Nil
  then show ?case by simp
next
  case (Cons kv kvs)
  obtain k' v' where kv: "kv = (k', v')" by (cases kv)
  have step: "map_of (js_set k' v' obj) k
      = (if k' = ''__proto__'' then map_of obj k else ((map_of obj)(k' \<mapsto> v')) k)"
    by (simp add: js_set_proto js_set_map_of)
  have "map_of (foldl (\<lambda>obj (k, v). js_set k v obj) obj (kv # kvs)) k
      = map_of (foldl (\<lambda>obj (k, v). js_set k v obj) (js_set k' v' obj) kvs) k"
    using kv by simp
  also have "\<dots> = (if k = ''__proto__'' then map_of (js_set k' v' obj) k
        else (case map_of (rev kvs) k of Some v \<Rightarrow> Some v | None \<Rightarrow> map_of (js_set k' v' obj) k))"
    by (rule Cons.IH)
  also have "\<dots> = (if k = ''__proto__'' then map_of obj k
        else (case map_of (rev (kv # kvs)) k of Some v \<Rightarrow> Some v | None \<Rightarrow> map_of obj k))"
    using step kv by (auto simp: map_add_def split: option.splits)
  finally show ?case .
qed

lemma record_all_distinct: "distinct (map fst (record_all kvs))"
  unfolding record_all_def by (rule foldl_js_set_distinct) simp

lemma record_all_ordered: "js_ordered (record_all kvs)"
  unfolding record_all_def by (rule foldl_js_set_ordered) simp

lemma record_all_set: "set (record_all kvs) \<subseteq> set kvs"
  unfolding record_all_def using foldl_js_set_set [of "[]" kvs] by simp

lemma record_all_length: "length (record_all kvs) \<le> length kvs"
  unfolding record_all_def using foldl_js_set_length [of "[]" kvs] by simp

lemma record_all_map_of:
  "map_of (record_all kvs) k = (if k = ''__proto__'' then None else map_of (rev kvs) k)"
  unfolding record_all_def using foldl_js_set_map_of [of "[]" kvs k]
  by (simp split: option.splits)

lemma record_all_full:
  assumes "distinct (map fst kvs)" "''__proto__'' \<notin> set (map fst kvs)"
  shows "set (record_all kvs) = set kvs" and "length (record_all kvs) = length kvs"
proof -
  show eq: "set (record_all kvs) = set kvs"
  proof
    show "set (record_all kvs) \<subseteq> set kvs" by (rule record_all_set)
    show "set kvs \<subseteq> set (record_all kvs)"
    proof
      fix kv assume kv: "kv \<in> set kvs"
      obtain k v where p: "kv = (k, v)" by (cases kv)
      have "distinct (map fst (rev kvs))" using assms(1) by (simp add: rev_map [symmetric])
      then have "map_of (rev kvs) k = Some v" using kv p by (intro map_of_is_SomeI) auto
      moreover have "k \<noteq> ''__proto__''" using assms(2) kv p by force
      ultimately have "map_of (record_all kvs) k = Some v" by (simp add: record_all_map_of)
      then show "kv \<in> set (record_all kvs)" using p by (simp add: map_of_SomeD)
    qed
  qed
  have "length (record_all kvs) = card (fst ` set (record_all kvs))"
    using record_all_distinct [of kvs] by (metis distinct_card length_map set_map)
  also have "\<dots> = card (fst ` set kvs)" using eq by simp
  also have "\<dots> = length kvs" using assms(1) by (metis distinct_card length_map set_map)
  finally show "length (record_all kvs) = length kvs" .
qed

lemma processImports_total:
  assumes fin: "finite U" and sub: "dom fs \<subseteq> U" and p: "p \<noteq> []"
    and IH: "\<And>src q k st. q \<noteq> [] \<Longrightarrow> q \<in> U \<Longrightarrow> card (U - set (processedPaths st)) < n
               \<Longrightarrow> \<exists>st'. processFile n c fs src q k st = Some st'"
  shows "card (U - set (processedPaths st)) < n \<Longrightarrow> \<exists>st'. processImports n c fs imps p st = Some st'"
proof (induction imps arbitrary: st)
  case Nil
  then show ?case by simp
next
  case (Cons i rest)
  show ?case
  proof (cases "findImports c fs i (Some p)")
    case (Inl e)
    have "card (U - set (processedPaths (log_events st
        [ReadFile (findImports_fullPath c i (Some p)), Warn i p e]))) < n"
      using Cons.prems by (simp add: log_events_def)
    then show ?thesis unfolding processImports_skip [OF Inl] by (rule Cons.IH)
  next
    case (Inr contents)
    let ?t = "importFilePath c p i"
    let ?st1 = "log_events st [ReadFile (findImports_fullPath c i (Some p))]"
    have t: "fs ?t = Some contents" using Inr p by (simp add: findImports_Inr)
    then have tU: "?t \<in> U" using sub by auto
    have "card (U - set (processedPaths ?st1)) < n" using Cons.prems by (simp add: log_events_def)
    then obtain st2 where st2: "processFile n c fs contents ?t (importSourceKey c p i) ?st1 = Some st2"
      using IH [OF importFilePath_nonempty tU] by blast
    have "set (processedPaths ?st1) \<subseteq> set (processedPaths st2)"
      using rel_mono(1) [OF processFile_rel_sound [OF st2]] by simp
    then have "U - set (processedPaths st2) \<subseteq> U - set (processedPaths st)"
      by (auto simp: log_events_def)
    then have "card (U - set (processedPaths st2)) \<le> card (U - set (processedPaths st))"
      using fin by (simp add: card_mono)
    then have "card (U - set (processedPaths st2)) < n" using Cons.prems by simp
    then have "\<exists>st'. processImports n c fs rest p st2 = Some st'" by (rule Cons.IH)
    then show ?thesis unfolding processImports_descend [OF Inr] using st2 by simp
  qed
qed

lemma processFile_total:
  assumes fin: "finite U" and sub: "dom fs \<subseteq> U"
  shows "p \<noteq> [] \<Longrightarrow> p \<in> U \<Longrightarrow> card (U - set (processedPaths st)) < n \<Longrightarrow>
         \<exists>st'. processFile n c fs src p k st = Some st'"
proof (induction n arbitrary: src p k st)
  case 0
  then show ?case by simp
next
  case (Suc n)
  show ?case
  proof (cases "p \<in> set (processedPaths st)")
    case True
    then show ?thesis by (simp add: processFile_seen)
  next
    case False
    let ?st1 = "record_file st p k src"
    have "U - set (processedPaths ?st1) = (U - set (processedPaths st)) - {p}"
      by (auto simp: record_file_def)
    moreover have "p \<in> U - set (processedPaths st)" using False Suc.prems(2) by simp
    ultimately have "card (U - set (processedPaths ?st1)) < card (U - set (processedPaths st))"
      using fin card_Diff1_less [of "U - set (processedPaths st)" p] by simp
    then have "card (U - set (processedPaths ?st1)) < n" using Suc.prems(3) by simp
    then have "\<exists>st'. processImports n c fs (importRegex_exec_all src) p ?st1 = Some st'"
      using processImports_total [OF fin sub Suc.prems(1)] Suc.IH by blast
    then show ?thesis unfolding processFile_fresh [OF False] .
  qed
qed

lemma resolveAllImports_run_total:
  assumes "finite (dom fs)" "contractPath \<noteq> []" "card (dom fs) + 2 \<le> n"
  shows "\<exists>st. resolveAllImports_run n c fs contractSource contractPath = Some st"
proof -
  let ?U = "insert contractPath (dom fs)"
  have "card ?U \<le> Suc (card (dom fs))" using assms(1) by (simp add: card_insert_if)
  then have "card (?U - set (processedPaths initial_state)) < n"
    using assms(3) by (simp add: initial_state_def)
  then show ?thesis
    unfolding resolveAllImports_run_def
    using processFile_total [of ?U fs contractPath initial_state n] assms(1,2) by blast
qed

lemma resolver_inv_initial: "resolver_inv c fs root initial_state"
proof -
  have "sources initial_state = record_all []" by (simp add: initial_state_def record_all_def)
  then have "recorded c fs root initial_state"
    unfolding recorded_def by (intro exI [of _ "[]"]) (simp add: initial_state_def)
  then show ?thesis by (simp add: resolver_inv_def initial_state_def)
qed

lemma run_facts:
  assumes run: "resolveAllImports_run n c fs src root = Some st"
    and root: "root \<noteq> []" and src: "fs root = Some src"
  shows "resolver_inv c fs root st"
    and "root \<in> set (processedPaths st)"
    and "\<forall>q \<in> set (processedPaths st). file_settled c fs st q"
proof -
  have rel: "processFile_rel c fs src root (path_basename root ''.sol'') initial_state st"
    using run unfolding resolveAllImports_run_def by (rule processFile_rel_sound)
  have r: "reachable c fs root root" by (simp add: reachable_def)
  have k: "key_for c fs root root (path_basename root ''.sol'')" by (simp add: key_for_def)
  show "resolver_inv c fs root st"
    using rel_inv(1) [OF rel root src r k resolver_inv_initial] .
  show "root \<in> set (processedPaths st)" using rel_mono(1) [OF rel] by simp
  have "real_files fs initial_state" by (simp add: real_files_def initial_state_def)
  then show "\<forall>q \<in> set (processedPaths st). file_settled c fs st q"
    using rel_settled(1) [OF rel root src] by (simp add: initial_state_def)
qed

lemma reachable_processed:
  assumes run: "resolveAllImports_run n c fs src root = Some st"
    and root: "root \<noteq> []" and src: "fs root = Some src"
    and q: "reachable c fs root q"
  shows "q \<in> set (processedPaths st)"
  using q unfolding reachable_def
proof (induction rule: rtranclp_induct)
  case base
  then show ?case using run_facts(2) [OF run root src] .
next
  case (step y z)
  from step.hyps(2) obtain i where i: "i \<in> set (imports_of fs y)"
    "z = importFilePath c y i" "fs z \<noteq> None"
    by (auto simp: import_edge_def)
  have "file_settled c fs st y" using run_facts(3) [OF run root src] step.IH by blast
  then have "import_settled c fs st y i" using i(1) by (simp add: file_settled_def)
  then show ?case using i(2,3) by (auto simp: import_settled_def split: option.splits)
qed

lemma processed_eq_reachable:
  assumes run: "resolveAllImports_run n c fs src root = Some st"
    and root: "root \<noteq> []" and src: "fs root = Some src"
  shows "set (processedPaths st) = {q. reachable c fs root q}"
  using run_facts(1) [OF assms] reachable_processed [OF assms]
  by (auto simp: resolver_inv_def)

lemma run_sources:
  assumes run: "resolveAllImports_run n c fs src root = Some st"
    and root: "root \<noteq> []" and src: "fs root = Some src"
  shows "distinct (map fst (sources st))"
    and "js_ordered (sources st)"
    and "\<exists>kvs. list_all2 (\<lambda>q (k, v). key_for c fs root q k \<and> fs q = Some v) (processedPaths st) kvs
           \<and> sources st = record_all kvs"
proof -
  let ?P = "\<lambda>q (k, v). key_for c fs root q k \<and> fs q = Some v"
  from run_facts(1) [OF assms] obtain kvs where kvs: "sources st = record_all kvs"
    "list_all2 ?P (processedPaths st) kvs"
    by (auto simp: resolver_inv_def recorded_def)
  show "distinct (map fst (sources st))" using kvs(1) by (simp add: record_all_distinct)
  show "js_ordered (sources st)" using kvs(1) by (simp add: record_all_ordered)
  show "\<exists>kvs. list_all2 ?P (processedPaths st) kvs \<and> sources st = record_all kvs"
    using kvs by blast
qed


lemma resolveAllImports_eq:
  "resolveAllImports_run n c fs src p = Some st \<Longrightarrow> resolveAllImports n c fs src p = Some (sources st)"
  by (simp add: resolveAllImports_def)

text \<open>
  Claim C1, amended. On a finite source tree, for a root file of the tree with a
  non-empty path, \<open>resolveAllImports\<close> returns once the fuel exceeds the number of
  files by two. It processes exactly the files that the root imports directly or
  through other files by imports that can be read, each once. The mapping has no
  duplicate keys, lists its keys in the order of enumeration, and is the result of one
  assignment for each processed file, in the order of processing, of the content of the
  file under a key derived for it: for the root the basename of its path without
  \<open>.sol\<close>, for an imported file the key of an import that resolves to it. So a key
  holds the content assigned to it last, \<open>__proto__\<close> is never a key, every entry
  holds the content of a processed file under its key, and there are no more entries
  than processed files. When the derived keys differ from each other and from
  \<open>__proto__\<close>, the entries are exactly the processed files under their keys.
\<close>

theorem resolveAllImports_terminates_and_covers:
  assumes "finite (dom fs)" and "contractPath \<noteq> []"
    and "fs contractPath = Some contractSource" and "card (dom fs) + 2 \<le> n"
  shows "\<exists>st kvs. resolveAllImports_run n c fs contractSource contractPath = Some st
     \<and> resolveAllImports n c fs contractSource contractPath = Some (sources st)
     \<and> distinct (map fst (sources st))
     \<and> js_ordered (sources st)
     \<and> distinct (processedPaths st)
     \<and> set (processedPaths st) = {q. reachable c fs contractPath q}
     \<and> list_all2 (\<lambda>q (k, v). key_for c fs contractPath q k \<and> fs q = Some v)
          (processedPaths st) kvs
     \<and> sources st = record_all kvs
     \<and> (\<forall>k. map_of (sources st) k
              = (if k = ''__proto__'' then None else map_of (rev kvs) k))
     \<and> set (sources st) \<subseteq> set kvs
     \<and> length (sources st) \<le> length (processedPaths st)
     \<and> (distinct (map fst kvs) \<and> ''__proto__'' \<notin> set (map fst kvs) \<longrightarrow>
          set (sources st) = set kvs \<and> length (sources st) = length (processedPaths st))"
proof -
  obtain st where run: "resolveAllImports_run n c fs contractSource contractPath = Some st"
    using resolveAllImports_run_total [OF assms(1,2,4)] by blast
  note f = run_facts [OF run assms(2,3)]
  note s = run_sources [OF run assms(2,3)]
  from s(3) obtain kvs where kvs:
    "list_all2 (\<lambda>q (k, v). key_for c fs contractPath q k \<and> fs q = Some v) (processedPaths st) kvs"
    "sources st = record_all kvs"
    by blast
  have len: "length kvs = length (processedPaths st)"
    using kvs(1) by (simp add: list_all2_lengthD)
  have 1: "resolveAllImports n c fs contractSource contractPath = Some (sources st)"
    using run by (rule resolveAllImports_eq)
  have 2: "distinct (processedPaths st)" using f(1) by (simp add: resolver_inv_def)
  have 3: "set (processedPaths st) = {q. reachable c fs contractPath q}"
    using processed_eq_reachable [OF run assms(2,3)] .
  have 4: "\<forall>k. map_of (sources st) k = (if k = ''__proto__'' then None else map_of (rev kvs) k)"
    using kvs(2) by (simp add: record_all_map_of)
  have 5: "set (sources st) \<subseteq> set kvs" using kvs(2) by (simp add: record_all_set)
  have 6: "length (sources st) \<le> length (processedPaths st)"
    using kvs(2) len record_all_length [of kvs] by simp
  have 7: "distinct (map fst kvs) \<and> ''__proto__'' \<notin> set (map fst kvs) \<longrightarrow>
          set (sources st) = set kvs \<and> length (sources st) = length (processedPaths st)"
    using kvs(2) len record_all_full [of kvs] by simp
  show ?thesis using run 1 s(1) s(2) 2 3 kvs 4 5 6 7 by blast
qed

lemma cycle_fs_dom: "finite (dom cycle_fs)" "card (dom cycle_fs) = 2"
  by (simp_all add: cycle_fs_def dom_map_of_conv_image_fst)

text \<open>
  \<open>A.sol\<close> imports \<open>./B.sol\<close> and \<open>B.sol\<close> imports \<open>./A.sol\<close>: the result
  has exactly the two entries \<open>A\<close> and \<open>B.sol\<close>.
\<close>

theorem resolveAllImports_terminates_and_covers_witness:
  "finite (dom cycle_fs) \<and> card (dom cycle_fs) + 2 \<le> 4
   \<and> cycle_fs ''/app/apps/contracts/src/contracts/A.sol'' = Some ''import \"./B.sol\";''
   \<and> resolveAllImports 4 example_config cycle_fs ''import \"./B.sol\";''
        ''/app/apps/contracts/src/contracts/A.sol''
     = Some [(''A'', ''import \"./B.sol\";''), (''B.sol'', ''import \"./A.sol\";'')]
   \<and> {q. reachable example_config cycle_fs ''/app/apps/contracts/src/contracts/A.sol'' q}
     = {''/app/apps/contracts/src/contracts/A.sol'', ''/app/apps/contracts/src/contracts/B.sol''}"
proof -
  let ?A = "''/app/apps/contracts/src/contracts/A.sol''"
  let ?src = "''import \"./B.sol\";''"
  have h1: "finite (dom cycle_fs)" and h4: "card (dom cycle_fs) + 2 \<le> 4"
    using cycle_fs_dom by simp_all
  have h2: "?A \<noteq> []" by simp
  have h3: "cycle_fs ?A = Some ?src" by code_simp
  have r: "resolveAllImports_run 4 example_config cycle_fs ?src ?A
    = Some \<lparr> sources = [(''A'', ''import \"./B.sol\";''), (''B.sol'', ''import \"./A.sol\";'')],
         processedPaths = [''/app/apps/contracts/src/contracts/A.sol'',
                           ''/app/apps/contracts/src/contracts/B.sol''],
         events = [ReadFile ''/app/apps/contracts/src/contracts/B.sol'',
                   ReadFile ''/app/apps/contracts/src/contracts/A.sol''] \<rparr>"
    by code_simp
  let ?st = "\<lparr> sources = [(''A'', ''import \"./B.sol\";''), (''B.sol'', ''import \"./A.sol\";'')],
         processedPaths = [''/app/apps/contracts/src/contracts/A.sol'',
                           ''/app/apps/contracts/src/contracts/B.sol''],
         events = [ReadFile ''/app/apps/contracts/src/contracts/B.sol'',
                   ReadFile ''/app/apps/contracts/src/contracts/A.sol''] \<rparr>"
  from resolveAllImports_terminates_and_covers [OF h1 h2 h3 h4, of example_config]
  obtain st where st: "resolveAllImports_run 4 example_config cycle_fs ?src ?A = Some st"
    "resolveAllImports 4 example_config cycle_fs ?src ?A = Some (sources st)"
    "set (processedPaths st) = {q. reachable example_config cycle_fs ?A q}"
    by (elim exE conjE) (rule that, assumption+)
  have e: "st = ?st" using st(1) r by simp
  have a: "resolveAllImports 4 example_config cycle_fs ?src ?A
     = Some [(''A'', ''import \"./B.sol\";''), (''B.sol'', ''import \"./A.sol\";'')]"
    using st(2) unfolding e by simp
  have "{q. reachable example_config cycle_fs ?A q} = set (processedPaths ?st)"
    using st(3) unfolding e by (rule sym)
  then have b: "{q. reachable example_config cycle_fs ?A q}
     = {''/app/apps/contracts/src/contracts/A.sol'', ''/app/apps/contracts/src/contracts/B.sol''}"
    by simp
  from a b show ?thesis using h1 h3 h4 by simp
qed

text \<open>
  Claim C1 as stated fails where two files derive the same key. The root \<open>A.sol\<close> is
  filed under \<open>A\<close>; it imports the bare specifier \<open>A\<close>, a file that imports
  \<open>./A.sol\<close> in turn and is filed under its specifier \<open>A\<close> too. The two files import
  each other, and the result has one entry, which holds the content of the second.
\<close>

theorem key_collision_counterexample:
  "collide_fs ''/app/apps/contracts/src/contracts/A.sol'' = Some ''import \"A\";''
   \<and> import_edge example_config collide_fs ''/app/apps/contracts/src/contracts/A.sol''
        ''/app/apps/contracts/src/contracts/A''
   \<and> import_edge example_config collide_fs ''/app/apps/contracts/src/contracts/A''
        ''/app/apps/contracts/src/contracts/A.sol''
   \<and> resolveAllImports 4 example_config collide_fs ''import \"A\";''
        ''/app/apps/contracts/src/contracts/A.sol''
     = Some [(''A'', ''import \"./A.sol\";'')]"
  by code_simp

text \<open>
  A file imported by the name \<open>__proto__\<close> is processed and has no entry, and the
  entry of the file imported by the name \<open>7\<close>, an array index, is listed before the
  entry of the root.
\<close>

lemma proto_and_index_keys_example:
  "resolveAllImports_run 5 example_config proto_fs ''import \"__proto__\"; import \"7\";''
        ''/app/apps/contracts/src/contracts/R.sol''
     = Some \<lparr> sources = [(''7'', ''contract Seven {}''),
                        (''R'', ''import \"__proto__\"; import \"7\";'')],
         processedPaths = [''/app/apps/contracts/src/contracts/R.sol'',
                           ''/app/apps/contracts/src/contracts/__proto__'',
                           ''/app/apps/contracts/src/contracts/7''],
         events = [ReadFile ''/app/apps/contracts/src/contracts/__proto__'',
                   ReadFile ''/app/apps/contracts/src/contracts/7''] \<rparr>"
  by code_simp

lemma resolveAllImports_run_unique:
  assumes "resolveAllImports_run n c fs src p = Some st1"
    and "resolveAllImports_run m c fs src p = Some st2"
  shows "st1 = st2"
  using assms unfolding resolveAllImports_run_def
  by (meson processFile_rel_sound rel_deterministic(1))

text \<open>
  Claim C9. Two runs of \<open>resolveAllImports\<close> on the same source tree from the same
  root return the same mapping: the result does not depend on anything but the
  configuration, the tree and the root, and in the model not on the fuel either. On a
  finite tree every two runs with enough fuel return, and return the same.
\<close>

theorem resolveAllImports_deterministic:
  "(resolveAllImports n c fs src p = Some r1 \<and> resolveAllImports m c fs src p = Some r2
      \<longrightarrow> r1 = r2)
   \<and> (finite (dom fs) \<and> p \<noteq> [] \<and> card (dom fs) + 2 \<le> n \<and> card (dom fs) + 2 \<le> m
      \<longrightarrow> resolveAllImports n c fs src p = resolveAllImports m c fs src p
          \<and> resolveAllImports n c fs src p \<noteq> None)"
proof (intro conjI impI)
  assume "resolveAllImports n c fs src p = Some r1 \<and> resolveAllImports m c fs src p = Some r2"
  then obtain st1 st2 where "resolveAllImports_run n c fs src p = Some st1" "r1 = sources st1"
    "resolveAllImports_run m c fs src p = Some st2" "r2 = sources st2"
    by (auto simp: resolveAllImports_def)
  then show "r1 = r2" using resolveAllImports_run_unique by blast
next
  assume a: "finite (dom fs) \<and> p \<noteq> [] \<and> card (dom fs) + 2 \<le> n \<and> card (dom fs) + 2 \<le> m"
  then obtain st1 st2 where s: "resolveAllImports_run n c fs src p = Some st1"
    "resolveAllImports_run m c fs src p = Some st2"
    using resolveAllImports_run_total [of fs p] by blast
  then have "st1 = st2" by (rule resolveAllImports_run_unique)
  then show "resolveAllImports n c fs src p = resolveAllImports m c fs src p"
    using s by (simp add: resolveAllImports_def)
  show "resolveAllImports n c fs src p \<noteq> None" using s by (simp add: resolveAllImports_def)
qed

text \<open>The cyclic example with fuel 4 and with fuel 9.\<close>

theorem resolveAllImports_deterministic_witness:
  "resolveAllImports 4 example_config cycle_fs ''import \"./B.sol\";''
        ''/app/apps/contracts/src/contracts/A.sol''
     = Some [(''A'', ''import \"./B.sol\";''), (''B.sol'', ''import \"./A.sol\";'')]
   \<and> resolveAllImports 9 example_config cycle_fs ''import \"./B.sol\";''
        ''/app/apps/contracts/src/contracts/A.sol''
     = Some [(''A'', ''import \"./B.sol\";''), (''B.sol'', ''import \"./A.sol\";'')]"
proof -
  let ?A = "''/app/apps/contracts/src/contracts/A.sol''"
  let ?src = "''import \"./B.sol\";''"
  have r: "resolveAllImports 4 example_config cycle_fs ?src ?A
     = Some [(''A'', ''import \"./B.sol\";''), (''B.sol'', ''import \"./A.sol\";'')]"
    by code_simp
  have h: "finite (dom cycle_fs) \<and> ?A \<noteq> [] \<and> card (dom cycle_fs) + 2 \<le> 4
     \<and> card (dom cycle_fs) + 2 \<le> 9"
    using cycle_fs_dom by simp
  from resolveAllImports_deterministic [where n = 4 and m = 9 and c = example_config
      and fs = cycle_fs and src = ?src and p = ?A] h r
  show ?thesis by metis
qed

text \<open>
  Claim C7. An import whose file cannot be read fails with \<open>ImportNotFound\<close>; the loop
  of \<open>processFile\<close> records a warning that names the specifier and the importing
  file and goes on with the remaining imports. For the resolution as a whole: on a finite
  tree it returns a result, in which every unreadable import of a processed file has
  its warning and every readable import of a processed file is processed.
\<close>

theorem broken_import_is_skipped:
  "(findImports c fs importPath (Some filePath) = Inl e \<longrightarrow>
      e = ImportNotFound importPath (Some filePath)
      \<and> processImports n c fs (importPath # rest) filePath st
        = processImports n c fs rest filePath
            (st\<lparr> events := events st
                 @ [ReadFile (findImports_fullPath c importPath (Some filePath)),
                    Warn importPath filePath e] \<rparr>))
   \<and> (finite (dom fs) \<and> contractPath \<noteq> [] \<and> fs contractPath = Some contractSource
        \<and> card (dom fs) + 2 \<le> n \<longrightarrow>
       (\<exists>st'. resolveAllImports_run n c fs contractSource contractPath = Some st'
          \<and> (\<forall>q \<in> set (processedPaths st'). \<forall>i \<in> set (imports_of fs q).
               (fs (importFilePath c q i) = None \<longrightarrow>
                  Warn i q (ImportNotFound i (Some q)) \<in> set (events st'))
               \<and> (fs (importFilePath c q i) \<noteq> None \<longrightarrow>
                  importFilePath c q i \<in> set (processedPaths st')))))"
proof (intro conjI impI)
  assume a: "findImports c fs importPath (Some filePath) = Inl e"
  then show "e = ImportNotFound importPath (Some filePath)"
    by (auto simp: findImports_def split: option.splits)
  show "processImports n c fs (importPath # rest) filePath st
        = processImports n c fs rest filePath
            (st\<lparr> events := events st
                 @ [ReadFile (findImports_fullPath c importPath (Some filePath)),
                    Warn importPath filePath e] \<rparr>)"
    using processImports_skip [OF a] by (simp add: log_events_def)
next
  assume a: "finite (dom fs) \<and> contractPath \<noteq> [] \<and> fs contractPath = Some contractSource
        \<and> card (dom fs) + 2 \<le> n"
  then obtain st' where run: "resolveAllImports_run n c fs contractSource contractPath = Some st'"
    using resolveAllImports_run_total [of fs contractPath] by blast
  have s: "\<forall>q \<in> set (processedPaths st'). file_settled c fs st' q"
    using run_facts(3) [OF run] a by blast
  have "\<forall>q \<in> set (processedPaths st'). \<forall>i \<in> set (imports_of fs q).
               (fs (importFilePath c q i) = None \<longrightarrow>
                  Warn i q (ImportNotFound i (Some q)) \<in> set (events st'))
               \<and> (fs (importFilePath c q i) \<noteq> None \<longrightarrow>
                  importFilePath c q i \<in> set (processedPaths st'))"
  proof (intro ballI)
    fix q i assume "q \<in> set (processedPaths st')" "i \<in> set (imports_of fs q)"
    then have "import_settled c fs st' q i" using s by (simp add: file_settled_def)
    then show "(fs (importFilePath c q i) = None \<longrightarrow>
                  Warn i q (ImportNotFound i (Some q)) \<in> set (events st'))
               \<and> (fs (importFilePath c q i) \<noteq> None \<longrightarrow>
                  importFilePath c q i \<in> set (processedPaths st'))"
      by (cases "fs (importFilePath c q i)") (simp_all add: import_settled_def)
  qed
  then show "\<exists>st'. resolveAllImports_run n c fs contractSource contractPath = Some st'
          \<and> (\<forall>q \<in> set (processedPaths st'). \<forall>i \<in> set (imports_of fs q).
               (fs (importFilePath c q i) = None \<longrightarrow>
                  Warn i q (ImportNotFound i (Some q)) \<in> set (events st'))
               \<and> (fs (importFilePath c q i) \<noteq> None \<longrightarrow>
                  importFilePath c q i \<in> set (processedPaths st')))"
    using run by blast
qed

lemma broken_fs_dom: "finite (dom broken_fs)" "card (dom broken_fs) = 2"
  by (simp_all add: broken_fs_def dom_map_of_conv_image_fst)

text \<open>
  The root imports \<open>./Missing.sol\<close>, which does not exist, and then \<open>./B.sol\<close>: the
  warning is recorded and \<open>B.sol\<close> is processed.
\<close>

theorem broken_import_is_skipped_witness:
  "findImports example_config broken_fs ''./Missing.sol''
       (Some ''/app/apps/contracts/src/contracts/R.sol'')
     = Inl (ImportNotFound ''./Missing.sol'' (Some ''/app/apps/contracts/src/contracts/R.sol''))
   \<and> resolveAllImports_run 4 example_config broken_fs
        ''import \"./Missing.sol\"; import \"./B.sol\";''
        ''/app/apps/contracts/src/contracts/R.sol''
     = Some \<lparr> sources = [(''R'', ''import \"./Missing.sol\"; import \"./B.sol\";''),
                        (''B.sol'', ''contract B {}'')],
         processedPaths = [''/app/apps/contracts/src/contracts/R.sol'',
                           ''/app/apps/contracts/src/contracts/B.sol''],
         events = [ReadFile ''/app/apps/contracts/src/contracts/Missing.sol'',
                   Warn ''./Missing.sol'' ''/app/apps/contracts/src/contracts/R.sol''
                     (ImportNotFound ''./Missing.sol''
                        (Some ''/app/apps/contracts/src/contracts/R.sol'')),
                   ReadFile ''/app/apps/contracts/src/contracts/B.sol''] \<rparr>"
proof -
  let ?R = "''/app/apps/contracts/src/contracts/R.sol''"
  let ?src = "''import \"./Missing.sol\"; import \"./B.sol\";''"
  let ?st = "\<lparr> sources = [(''R'', ?src), (''B.sol'', ''contract B {}'')],
         processedPaths = [?R, ''/app/apps/contracts/src/contracts/B.sol''],
         events = [ReadFile ''/app/apps/contracts/src/contracts/Missing.sol'',
                   Warn ''./Missing.sol'' ?R (ImportNotFound ''./Missing.sol'' (Some ?R)),
                   ReadFile ''/app/apps/contracts/src/contracts/B.sol''] \<rparr>"
  have f: "findImports example_config broken_fs ''./Missing.sol'' (Some ?R)
     = Inl (ImportNotFound ''./Missing.sol'' (Some ?R))" by code_simp
  have h: "finite (dom broken_fs) \<and> ?R \<noteq> [] \<and> broken_fs ?R = Some ?src
     \<and> card (dom broken_fs) + 2 \<le> 4"
  proof -
    have "broken_fs ?R = Some ?src" by code_simp
    then show ?thesis using broken_fs_dom by simp
  qed
  have r: "resolveAllImports_run 4 example_config broken_fs ?src ?R = Some ?st" by code_simp
  from broken_import_is_skipped [where c = example_config and fs = broken_fs
      and importPath = "''./Missing.sol''" and filePath = ?R
      and e = "ImportNotFound ''./Missing.sol'' (Some ?R)" and n = 4
      and contractPath = ?R and contractSource = ?src] f h r
  show ?thesis by blast
qed



















end
